theory Spec2Isabelle
  imports Complex_Main "HOL-Library.Multiset" "HOL-Library.Word"
begin

section \<open>The native Map underneath a RecordSet\<close>

text \<open>
  \<^verbatim>\<open>class RecordSet extends Map\<close> (src/src/record/set.js): a JavaScript Map iterates in
  insertion order, \<^verbatim>\<open>Map.prototype.set\<close> on a key that is present replaces the value
  where it stands and on a new key appends at the end, \<^verbatim>\<open>Map.prototype.delete\<close> removes
  the entry. The Map is an association list in iteration order.
\<close>

type_synonym ('k, 'v) entries = "('k \<times> 'v) list"

fun map_has :: "'k \<Rightarrow> ('k, 'v) entries \<Rightarrow> bool" where
  "map_has k [] = False"
| "map_has k (e # es) = (if fst e = k then True else map_has k es)"

fun map_get :: "'k \<Rightarrow> ('k, 'v) entries \<Rightarrow> 'v option" where
  "map_get k [] = None"
| "map_get k (e # es) = (if fst e = k then Some (snd e) else map_get k es)"

fun map_set :: "'k \<Rightarrow> 'v \<Rightarrow> ('k, 'v) entries \<Rightarrow> ('k, 'v) entries" where
  "map_set k v [] = [(k, v)]"
| "map_set k v (e # es) = (if fst e = k then (k, v) # es else e # map_set k v es)"

fun map_delete :: "'k \<Rightarrow> ('k, 'v) entries \<Rightarrow> ('k, 'v) entries" where
  "map_delete k [] = []"
| "map_delete k (e # es) = (if fst e = k then es else e # map_delete k es)"

text \<open>\<^verbatim>\<open>for (const [id, value] of iterable) this[$set](id, value)\<close>, also \<^verbatim>\<open>new Map(iterable)\<close>.\<close>

fun insert_all :: "('k, 'v) entries \<Rightarrow> ('k, 'v) entries \<Rightarrow> ('k, 'v) entries" where
  "insert_all m [] = m"
| "insert_all m (e # es) = insert_all (map_set (fst e) (snd e) m) es"

definition new_Map :: "('k, 'v) entries \<Rightarrow> ('k, 'v) entries" where
  "new_Map iterable = insert_all [] iterable"

section \<open>RecordSet\<close>

text \<open>
  A callback is called as \<^verbatim>\<open>callbackFn(value, id, this)\<close>; the model passes the entries of
  \<^verbatim>\<open>this\<close> as the third argument and keeps the truthiness of what the callback returns.
  A comparator is called as \<^verbatim>\<open>comparatorFn(value1, value2, id1, id2)\<close> and returns a
  number, of which only the sign is read. Callbacks are pure and return normally.
\<close>

type_synonym ('k, 'v) callback = "'v \<Rightarrow> 'k \<Rightarrow> ('k, 'v) entries \<Rightarrow> bool"
type_synonym ('k, 'v) comparator = "'v \<Rightarrow> 'v \<Rightarrow> 'k \<Rightarrow> 'k \<Rightarrow> int"
type_synonym ('k, 'v) scope = "('k, 'v) callback \<times> ('k, 'v) comparator option"

datatype error = TypeError | DuplicationError | NameError | ReferenceError

text \<open>
  \<^verbatim>\<open>entries\<close> is the Map part, \<^verbatim>\<open>scopes\<close> the private \<^verbatim>\<open>#scopes\<close> Map from a scope name to
  \<^verbatim>\<open>[matcher, comparator]\<close>, \<^verbatim>\<open>accessors\<close> the own properties that
  \<^verbatim>\<open>Object.defineProperty(this, name, {get})\<close> has defined on the object.
\<close>

record ('k, 'v) recordset =
  entries :: "('k, 'v) entries"
  scopes :: "(string, ('k, 'v) scope) entries"
  accessors :: "string list"

text \<open>\<^verbatim>\<open>[...this.keys()]\<close>\<close>

definition keys :: "('k, 'v) recordset \<Rightarrow> 'k list" where
  "keys this = map fst (entries this)"

text \<open>\<^verbatim>\<open>[$set](id, value)\<close>, \<^verbatim>\<open>[$delete](id)\<close> and \<^verbatim>\<open>[$clearRecordSetForTesting]()\<close>\<close>

definition set_priv :: "'k \<Rightarrow> 'v \<Rightarrow> ('k, 'v) recordset \<Rightarrow> ('k, 'v) recordset" where
  "set_priv key v this = this\<lparr>entries := map_set key v (entries this)\<rparr>"

definition delete_priv :: "'k \<Rightarrow> ('k, 'v) recordset \<Rightarrow> ('k, 'v) recordset" where
  "delete_priv key this = this\<lparr>entries := map_delete key (entries this)\<rparr>"

definition clearRecordSetForTesting :: "('k, 'v) recordset \<Rightarrow> ('k, 'v) recordset" where
  "clearRecordSetForTesting this = this\<lparr>entries := []\<rparr>"

text \<open>
  \<^verbatim>\<open>#copyScopes\<close>: for every scope of the other set, in its order, store it and define the
  accessor. The names of a Map are distinct, so no accessor is defined twice.
\<close>

fun copyScopes_loop ::
  "('k, 'v) recordset \<Rightarrow> (string, ('k, 'v) scope) entries \<Rightarrow> ('k, 'v) recordset" where
  "copyScopes_loop this [] = this"
| "copyScopes_loop this (s # ss) =
     copyScopes_loop
       (this\<lparr>scopes := map_set (fst s) (snd s) (scopes this),
             accessors := accessors this @ [fst s]\<rparr>) ss"

definition copyScopes :: "('k, 'v) recordset \<Rightarrow> ('k, 'v) recordset \<Rightarrow> ('k, 'v) recordset" where
  "copyScopes this otherRecordSet = copyScopes_loop this (scopes otherRecordSet)"

text \<open>The constructor, \<^verbatim>\<open>new RecordSet({ iterable, copyScopesFrom })\<close>.\<close>

definition new_RecordSet ::
  "('k, 'v) entries \<Rightarrow> ('k, 'v) recordset option \<Rightarrow> ('k, 'v) recordset" where
  "new_RecordSet iterable copyScopesFrom =
     (let this = \<lparr>entries = insert_all [] iterable, scopes = [], accessors = []\<rparr>
      in case copyScopesFrom of None \<Rightarrow> this | Some other \<Rightarrow> copyScopes this other)"

subsection \<open>The public mutators\<close>

text \<open>\<^verbatim>\<open>set()\<close>, \<^verbatim>\<open>delete()\<close> and \<^verbatim>\<open>clear()\<close> throw whatever they are given; the pair is
  the outcome and the set afterwards.\<close>

definition set_public ::
  "'k \<Rightarrow> 'v \<Rightarrow> ('k, 'v) recordset \<Rightarrow> (error + ('k, 'v) recordset) \<times> ('k, 'v) recordset" where
  "set_public key v this = (Inl TypeError, this)"

definition delete_public ::
  "'k \<Rightarrow> ('k, 'v) recordset \<Rightarrow> (error + bool) \<times> ('k, 'v) recordset" where
  "delete_public key this = (Inl TypeError, this)"

definition clear_public :: "('k, 'v) recordset \<Rightarrow> (error + unit) \<times> ('k, 'v) recordset" where
  "clear_public this = (Inl TypeError, this)"

subsection \<open>Derivations\<close>

text \<open>\<^verbatim>\<open>filter(callbackFn)\<close> with \<^verbatim>\<open>flat\<close> false: a reduce over the entries into a new
  RecordSet that has the scopes of this one.\<close>

fun filter_loop ::
  "('k, 'v) callback \<Rightarrow> ('k, 'v) entries \<Rightarrow> ('k, 'v) recordset \<Rightarrow> ('k, 'v) entries
     \<Rightarrow> ('k, 'v) recordset" where
  "filter_loop callbackFn this_entries newMap [] = newMap"
| "filter_loop callbackFn this_entries newMap (e # es) =
     filter_loop callbackFn this_entries
       (if callbackFn (snd e) (fst e) this_entries then set_priv (fst e) (snd e) newMap
        else newMap) es"

definition filter_rs :: "('k, 'v) callback \<Rightarrow> ('k, 'v) recordset \<Rightarrow> ('k, 'v) recordset" where
  "filter_rs callbackFn this =
     filter_loop callbackFn (entries this) (new_RecordSet [] (Some this)) (entries this)"

definition where_rs :: "('k, 'v) callback \<Rightarrow> ('k, 'v) recordset \<Rightarrow> ('k, 'v) recordset" where
  "where_rs callbackFn this = filter_rs callbackFn this"

fun find_loop :: "('k, 'v) callback \<Rightarrow> ('k, 'v) entries \<Rightarrow> ('k, 'v) entries \<Rightarrow> 'v option" where
  "find_loop callbackFn this_entries [] = None"
| "find_loop callbackFn this_entries (e # es) =
     (if callbackFn (snd e) (fst e) this_entries then Some (snd e)
      else find_loop callbackFn this_entries es)"

definition find_rs :: "('k, 'v) callback \<Rightarrow> ('k, 'v) recordset \<Rightarrow> 'v option" where
  "find_rs callbackFn this = find_loop callbackFn (entries this) (entries this)"

text \<open>\<^verbatim>\<open>only(...ids)\<close>: the entries of the ids that are present, in the order of the ids.\<close>

fun only_reduce :: "('k, 'v) entries \<Rightarrow> ('k, 'v) entries \<Rightarrow> 'k list \<Rightarrow> ('k, 'v) entries" where
  "only_reduce this_entries itr [] = itr"
| "only_reduce this_entries itr (key # ids) =
     only_reduce this_entries
       (if map_has key this_entries
        then (case map_get key this_entries of Some v \<Rightarrow> itr @ [(key, v)] | None \<Rightarrow> itr)
        else itr) ids"

definition only :: "'k list \<Rightarrow> ('k, 'v) recordset \<Rightarrow> ('k, 'v) recordset" where
  "only ids this = new_RecordSet (only_reduce (entries this) [] ids) (Some this)"

definition except :: "'k list \<Rightarrow> ('k, 'v) recordset \<Rightarrow> ('k, 'v) recordset" where
  "except ids this =
     new_RecordSet (filter (\<lambda>e. fst e \<notin> set ids) (entries this)) (Some this)"

text \<open>
  \<^verbatim>\<open>Array.prototype.sort(comparefn)\<close> is the language's: ECMAScript requires it to be
  stable, and for a consistent comparator that fixes the result. It is modelled by the
  stable insertion sort: an element goes in front of the first later element that it does
  not compare greater than.
\<close>

fun js_insort :: "('a \<Rightarrow> 'a \<Rightarrow> int) \<Rightarrow> 'a \<Rightarrow> 'a list \<Rightarrow> 'a list" where
  "js_insort c x [] = [x]"
| "js_insort c x (y # ys) = (if c x y \<le> 0 then x # y # ys else y # js_insort c x ys)"

fun js_sort :: "('a \<Rightarrow> 'a \<Rightarrow> int) \<Rightarrow> 'a list \<Rightarrow> 'a list" where
  "js_sort c [] = []"
| "js_sort c (x # xs) = js_insort c x (js_sort c xs)"

text \<open>\<^verbatim>\<open>([id1, value1], [id2, value2]) => comparatorFn(value1, value2, id1, id2)\<close>\<close>

definition entry_cmp :: "('k, 'v) comparator \<Rightarrow> ('k \<times> 'v) \<Rightarrow> ('k \<times> 'v) \<Rightarrow> int" where
  "entry_cmp comparatorFn e1 e2 = comparatorFn (snd e1) (snd e2) (fst e1) (fst e2)"

definition sort_rs :: "('k, 'v) comparator \<Rightarrow> ('k, 'v) recordset \<Rightarrow> ('k, 'v) recordset" where
  "sort_rs comparatorFn this =
     (let sorted = js_sort (entry_cmp comparatorFn) (entries this)
      in new_RecordSet sorted (Some this))"

definition duplicate :: "('k, 'v) recordset \<Rightarrow> ('k, 'v) recordset" where
  "duplicate this = new_RecordSet (entries this) (Some this)"

text \<open>\<^verbatim>\<open>merge(...recordSets)\<close>: the inner loop runs over the entries of one argument, the
  outer loop over the arguments; the throw leaves both.\<close>

fun merge_entries :: "('k, 'v) entries \<Rightarrow> ('k, 'v) entries \<Rightarrow> error + ('k, 'v) entries" where
  "merge_entries res [] = Inr res"
| "merge_entries res (e # es) =
     (if map_has (fst e) res then Inl DuplicationError
      else merge_entries (map_set (fst e) (snd e) res) es)"

fun merge_sets :: "('k, 'v) entries \<Rightarrow> ('k, 'v) recordset list \<Rightarrow> error + ('k, 'v) entries" where
  "merge_sets res [] = Inr res"
| "merge_sets res (recordSet # recordSets) =
     (case merge_entries res (entries recordSet) of
        Inl err \<Rightarrow> Inl err
      | Inr res' \<Rightarrow> merge_sets res' recordSets)"

definition merge ::
  "('k, 'v) recordset list \<Rightarrow> ('k, 'v) recordset \<Rightarrow> error + ('k, 'v) recordset" where
  "merge recordSets this =
     (case merge_sets (new_Map (entries this)) recordSets of
        Inl err \<Rightarrow> Inl err
      | Inr res \<Rightarrow> Inr (new_RecordSet res (Some this)))"

text \<open>\<^verbatim>\<open>append(...records)\<close>: \<^verbatim>\<open>rid\<close> reads \<^verbatim>\<open>record.id\<close>.\<close>

fun append_loop :: "('v \<Rightarrow> 'k) \<Rightarrow> ('k, 'v) recordset \<Rightarrow> 'v list \<Rightarrow> ('k, 'v) recordset" where
  "append_loop rid res [] = res"
| "append_loop rid res (r # rs) = append_loop rid (set_priv (rid r) r res) rs"

definition append_rs ::
  "('v \<Rightarrow> 'k) \<Rightarrow> 'v list \<Rightarrow> ('k, 'v) recordset \<Rightarrow> ('k, 'v) recordset" where
  "append_rs rid records this =
     append_loop rid (new_RecordSet (entries this) (Some this)) records"

text \<open>\<^verbatim>\<open>*batchIterator(batchSize)\<close> with \<^verbatim>\<open>flat\<close> false: the batches the generator yields
  until it is done, in order; \<^verbatim>\<open>batchIterator_flat\<close> is the same loop with \<^verbatim>\<open>flat\<close> true.\<close>

fun batch_loop :: "int \<Rightarrow> 'a list \<Rightarrow> 'a list \<Rightarrow> 'a list list" where
  "batch_loop batchSize batch [] = (if length batch \<noteq> 0 then [batch] else [])"
| "batch_loop batchSize batch (e # es) =
     (let batch' = batch @ [e]
      in if int (length batch') = batchSize then batch' # batch_loop batchSize [] es
         else batch_loop batchSize batch' es)"

definition batchIterator :: "int \<Rightarrow> ('k, 'v) recordset \<Rightarrow> ('k, 'v) recordset list" where
  "batchIterator batchSize this =
     map (\<lambda>batch. new_RecordSet batch (Some this)) (batch_loop batchSize [] (entries this))"

definition batchIterator_flat :: "int \<Rightarrow> ('k, 'v) recordset \<Rightarrow> 'v list list" where
  "batchIterator_flat batchSize this = batch_loop batchSize [] (map snd (entries this))"

text \<open>\<^verbatim>\<open>limit(n)\<close>: push, then compare the length with \<^verbatim>\<open>n\<close>.\<close>

fun limit_loop :: "int \<Rightarrow> 'a list \<Rightarrow> 'a list \<Rightarrow> 'a list" where
  "limit_loop n records [] = records"
| "limit_loop n records (e # es) =
     (let records' = records @ [e]
      in if int (length records') = n then records' else limit_loop n records' es)"

definition limit :: "int \<Rightarrow> ('k, 'v) recordset \<Rightarrow> ('k, 'v) recordset" where
  "limit n this = new_RecordSet (limit_loop n [] (entries this)) (Some this)"

fun offset_loop :: "int \<Rightarrow> int \<Rightarrow> 'a list \<Rightarrow> 'a list \<Rightarrow> 'a list" where
  "offset_loop n counter records [] = records"
| "offset_loop n counter records (e # es) =
     (if counter < n then offset_loop n (counter + 1) records es
      else offset_loop n counter (records @ [e]) es)"

definition offset :: "int \<Rightarrow> ('k, 'v) recordset \<Rightarrow> ('k, 'v) recordset" where
  "offset n this = new_RecordSet (offset_loop n 0 [] (entries this)) (Some this)"

text \<open>\<^verbatim>\<open>Array.prototype.slice(start, end)\<close>: \<^verbatim>\<open>None\<close> is an argument left undefined, a
  negative index counts from the end, both are clamped to the length.\<close>

definition js_slice :: "int option \<Rightarrow> int option \<Rightarrow> 'a list \<Rightarrow> 'a list" where
  "js_slice start end xs =
     (let len = int (length xs);
          clamp = (\<lambda>i. if i < 0 then max (len + i) 0 else min i len);
          k = (case start of None \<Rightarrow> 0 | Some s \<Rightarrow> clamp s);
          final = (case end of None \<Rightarrow> len | Some e \<Rightarrow> clamp e)
      in take (nat (final - k)) (drop (nat k) xs))"

definition slice :: "int option \<Rightarrow> int option \<Rightarrow> ('k, 'v) recordset \<Rightarrow> ('k, 'v) recordset" where
  "slice start end this = new_RecordSet (js_slice start end (entries this)) (Some this)"

subsection \<open>Scopes\<close>

text \<open>\<^verbatim>\<open>#scopedWhere(scopeName)\<close>, what the accessor of a scope returns. Destructuring the
  scope of a name that is not in the table throws.\<close>

definition scopedWhere :: "string \<Rightarrow> ('k, 'v) recordset \<Rightarrow> error + ('k, 'v) recordset" where
  "scopedWhere scopeName this =
     (case map_get scopeName (scopes this) of
        None \<Rightarrow> Inl TypeError
      | Some (matcherFn, comparatorFn) \<Rightarrow>
          (let matches = filter (\<lambda>e. matcherFn (snd e) (fst e) (entries this)) (entries this);
               matches' = (case comparatorFn of
                             None \<Rightarrow> matches
                           | Some c \<Rightarrow> js_sort (entry_cmp c) matches)
           in Inr (new_RecordSet matches' (Some this))))"

subsection \<open>The invariant of a RecordSet\<close>

text \<open>
  What the class keeps of every instance: the keys of a Map are distinct, so are the names
  of the scope table, and the accessors defined on the object are those of the table, in
  its order.
\<close>

definition rs_inv :: "('k, 'v) recordset \<Rightarrow> bool" where
  "rs_inv this \<longleftrightarrow>
     distinct (map fst (entries this)) \<and> distinct (map fst (scopes this)) \<and>
     accessors this = map fst (scopes this)"

subsection \<open>Sets used as concrete inputs\<close>

text \<open>Five entries, and three sets of which the first two have no key in common and the
  third shares the key 2 with the first.\<close>

definition five :: "(nat, string) recordset" where
  "five = \<lparr>entries = [(1, ''a''), (2, ''b''), (3, ''c''), (4, ''d''), (5, ''e'')],
           scopes = [], accessors = []\<rparr>"

definition ab :: "(nat, nat \<times> string) recordset" where
  "ab = \<lparr>entries = [(1, (1, ''a'')), (2, (2, ''b''))], scopes = [], accessors = []\<rparr>"

definition cd :: "(nat, nat \<times> string) recordset" where
  "cd = \<lparr>entries = [(3, (3, ''c'')), (4, (4, ''d''))], scopes = [], accessors = []\<rparr>"

definition bz :: "(nat, nat \<times> string) recordset" where
  "bz = \<lparr>entries = [(5, (5, ''e'')), (2, (2, ''z''))], scopes = [], accessors = []\<rparr>"

subsection \<open>Comparators\<close>

text \<open>ECMAScript's consistent comparator on a set of values.\<close>

definition consistent_comparator :: "('a \<Rightarrow> 'a \<Rightarrow> int) \<Rightarrow> 'a set \<Rightarrow> bool" where
  "consistent_comparator c A \<longleftrightarrow>
     (\<forall>a \<in> A. c a a = 0) \<and>
     (\<forall>a \<in> A. \<forall>b \<in> A. c a b = 0 \<longrightarrow> c b a = 0) \<and>
     (\<forall>a \<in> A. \<forall>b \<in> A. \<forall>d \<in> A. c a b = 0 \<longrightarrow> c b d = 0 \<longrightarrow> c a d = 0) \<and>
     (\<forall>a \<in> A. \<forall>b \<in> A. \<forall>d \<in> A. c a b < 0 \<longrightarrow> c b d < 0 \<longrightarrow> c a d < 0) \<and>
     (\<forall>a \<in> A. \<forall>b \<in> A. \<forall>d \<in> A. c a b > 0 \<longrightarrow> c b d > 0 \<longrightarrow> c a d > 0)"

text \<open>\<open>x\<close> stands somewhere in front of \<open>y\<close> in the list.\<close>

definition occurs_before :: "'a \<Rightarrow> 'a \<Rightarrow> 'a list \<Rightarrow> bool" where
  "occurs_before x y xs \<longleftrightarrow> (\<exists>as bs cs. xs = as @ x # bs @ y # cs)"

text \<open>A set of people, \<open>(age, name)\<close> under a numeric id, with one scope: the records no
  one in the collection is older than.\<close>

definition by_age :: "(nat, nat \<times> string) comparator" where
  "by_age value1 value2 id1 id2 = int (fst value1) - int (fst value2)"

definition oldest :: "(nat, nat \<times> string) callback" where
  "oldest v k this_entries = list_all (\<lambda>e. fst (snd e) \<le> fst v) this_entries"

definition younger_than :: "nat \<Rightarrow> (nat, nat \<times> string) callback" where
  "younger_than n v k this_entries = (fst v < n)"

definition people :: "(nat, nat \<times> string) recordset" where
  "people = \<lparr>entries = [(1, (30, ''a'')), (2, (20, ''b'')), (3, (40, ''c'')), (4, (20, ''d''))],
             scopes = [(''oldest'', (oldest, None))], accessors = [''oldest'']\<rparr>"

section \<open>JavaScript values and Record objects\<close>

text \<open>
  Plain data as a record stores it. \<^verbatim>\<open>Num\<close> is a number whose value is an integer from
  \<open>-2\<^sup>5\<^sup>3\<close> to \<open>2\<^sup>5\<^sup>3 - 1\<close>, which a JavaScript number holds exactly: the type is the
  54-bit word, read as a signed integer by \<^verbatim>\<open>sint\<close>, and no arithmetic is done on it. Larger
  numbers, numbers with a fraction, NaN and the infinities are not values of the type. An
  array is modelled by its elements.
\<close>

datatype jsval = Undefined | Null | Bool bool | Num "54 word" | Str string | Arr "jsval list"

text \<open>
  The Record class and its Proxy handler are not in the sources. What reading a property of
  a Record yields is a parameter of the functions that read one: plain data, or another
  Record (a resolved relationship), for which \<^verbatim>\<open>value[$isRecord]\<close> is truthy.
\<close>

datatype 'r property = Plain jsval | Record 'r

fun js_truthy :: "jsval \<Rightarrow> bool" where
  "js_truthy Undefined = False"
| "js_truthy Null = False"
| "js_truthy (Bool b) = b"
| "js_truthy (Num n) = (n \<noteq> 0)"
| "js_truthy (Str s) = (s \<noteq> [])"
| "js_truthy (Arr xs) = True"

text \<open>
  ToString, the coercion of a property key \<^verbatim>\<open>obj[key]\<close>. JavaScript prints an integer below
  \<open>10\<^sup>2\<^sup>1\<close> in decimal, so every \<^verbatim>\<open>Num\<close> prints in decimal; an array prints its elements
  joined by commas with \<^verbatim>\<open>undefined\<close> and \<^verbatim>\<open>null\<close> empty.
\<close>

definition digit_char :: "nat \<Rightarrow> char" where
  "digit_char d = ''0123456789'' ! d"

fun digits :: "nat \<Rightarrow> string" where
  "digits n = (if n < 10 then [digit_char n] else digits (n div 10) @ [digit_char (n mod 10)])"

definition number_toString :: "54 word \<Rightarrow> string" where
  "number_toString w =
     (if sint w < 0 then CHR ''-'' # digits (nat (- sint w)) else digits (nat (sint w)))"

fun join_comma :: "string list \<Rightarrow> string" where
  "join_comma [] = []"
| "join_comma [s] = s"
| "join_comma (s # t # ss) = s @ CHR '','' # join_comma (t # ss)"

fun js_toString :: "jsval \<Rightarrow> string" where
  "js_toString Undefined = ''undefined''"
| "js_toString Null = ''null''"
| "js_toString (Bool b) = (if b then ''true'' else ''false'')"
| "js_toString (Num n) = number_toString n"
| "js_toString (Str s) = s"
| "js_toString (Arr xs) =
     join_comma (map (\<lambda>x. if x = Undefined \<or> x = Null then [] else js_toString x) xs)"

subsection \<open>groupBy\<close>

text \<open>
  \<^verbatim>\<open>const res = {}\<close> inherits the members of \<^verbatim>\<open>Object.prototype\<close>: reading \<^verbatim>\<open>res[p]\<close> for one of
  these names yields the inherited member, which is truthy and has no \<^verbatim>\<open>[$set]\<close>.
\<close>

definition object_prototype_names :: "string list" where
  "object_prototype_names =
     [''constructor'', ''__defineGetter__'', ''__defineSetter__'', ''hasOwnProperty'',
      ''__lookupGetter__'', ''__lookupSetter__'', ''isPrototypeOf'', ''propertyIsEnumerable'',
      ''toString'', ''valueOf'', ''__proto__'', ''toLocaleString'']"








section \<open>Relationship\<close>

text \<open>
  src/src/relationship.js. The type is one of the four cardinalities; the names follow the
  library's \<^verbatim>\<open>oneToOne\<close>, \<^verbatim>\<open>oneToMany\<close>, \<^verbatim>\<open>manyToOne\<close>, \<^verbatim>\<open>manyToMany\<close>, read from-to.
\<close>

datatype relationship_type = OneToOne | OneToMany | ManyToOne | ManyToMany

text \<open>
  Modelled from the spec: \<^verbatim>\<open>isToOne\<close> and \<^verbatim>\<open>isFromOne\<close> are imported from src/utils, which is
  not in the sources. The spec draws the cardinality from
  \<open>{to-one, to-many} \<times> {from-one, from-many}\<close>, that is one-to-one, one-to-many, many-to-one
  and many-to-many: the first word is the from side, the last the to side.
\<close>

definition isToOne :: "relationship_type \<Rightarrow> bool" where
  "isToOne t = (t = OneToOne \<or> t = ManyToOne)"

definition isFromOne :: "relationship_type \<Rightarrow> bool" where
  "isFromOne t = (t = OneToOne \<or> t = OneToMany)"

text \<open>What a Relationship reads of a Model: its name, the name of its key field
  (\<^verbatim>\<open>model[$key].name\<close>) and its records.\<close>

record 'r model =
  model_name :: string
  key_name :: string
  records :: "(jsval, 'r) recordset"

record 'r relationship =
  rel_type :: relationship_type
  rel_from :: "'r model"
  rel_to :: "'r model"
  rel_name :: string
  rel_reverseName :: string

text \<open>What \<^verbatim>\<open>get\<close> returns: \<^verbatim>\<open>undefined\<close> when neither side matches, what \<^verbatim>\<open>Map.get\<close> or
  \<^verbatim>\<open>find\<close> returns (a record or \<^verbatim>\<open>undefined\<close>), or the RecordSet of \<^verbatim>\<open>where\<close>.\<close>

datatype 'r resolved = NoResult | OneRecord "'r option" | ManyRecords "(jsval, 'r) recordset"

text \<open>
  \<^verbatim>\<open>receiver.includes(x)\<close>: membership for an array, substring search of the string form for
  a string; any other receiver has no such method.
\<close>

fun is_substring :: "string \<Rightarrow> string \<Rightarrow> bool" where
  "is_substring p [] = (p = [])"
| "is_substring p (c # cs) = (take (length p) (c # cs) = p \<or> is_substring p cs)"

definition js_includes :: "jsval \<Rightarrow> jsval \<Rightarrow> error + bool" where
  "js_includes receiver x =
     (case receiver of
        Arr xs \<Rightarrow> Inr (x \<in> set xs)
      | Str s \<Rightarrow> Inr (is_substring (js_toString x) s)
      | _ \<Rightarrow> Inl TypeError)"

text \<open>\<^verbatim>\<open>filter\<close>/\<^verbatim>\<open>where\<close> and \<^verbatim>\<open>find\<close> of the RecordSet once more, for a callback that may
  throw: the throw leaves the method.\<close>

type_synonym ('k, 'v) callbackE = "'v \<Rightarrow> 'k \<Rightarrow> ('k, 'v) entries \<Rightarrow> error + bool"

fun filterE_loop ::
  "('k, 'v) callbackE \<Rightarrow> ('k, 'v) entries \<Rightarrow> ('k, 'v) recordset \<Rightarrow> ('k, 'v) entries
     \<Rightarrow> error + ('k, 'v) recordset" where
  "filterE_loop callbackFn this_entries newMap [] = Inr newMap"
| "filterE_loop callbackFn this_entries newMap (e # es) =
     (case callbackFn (snd e) (fst e) this_entries of
        Inl err \<Rightarrow> Inl err
      | Inr b \<Rightarrow> filterE_loop callbackFn this_entries
                  (if b then set_priv (fst e) (snd e) newMap else newMap) es)"

definition whereE :: "('k, 'v) callbackE \<Rightarrow> ('k, 'v) recordset \<Rightarrow> error + ('k, 'v) recordset" where
  "whereE callbackFn this =
     filterE_loop callbackFn (entries this) (new_RecordSet [] (Some this)) (entries this)"

fun findE_loop ::
  "('k, 'v) callbackE \<Rightarrow> ('k, 'v) entries \<Rightarrow> ('k, 'v) entries \<Rightarrow> error + 'v option" where
  "findE_loop callbackFn this_entries [] = Inr None"
| "findE_loop callbackFn this_entries (e # es) =
     (case callbackFn (snd e) (fst e) this_entries of
        Inl err \<Rightarrow> Inl err
      | Inr b \<Rightarrow> if b then Inr (Some (snd e)) else findE_loop callbackFn this_entries es)"

definition findE :: "('k, 'v) callbackE \<Rightarrow> ('k, 'v) recordset \<Rightarrow> error + 'v option" where
  "findE callbackFn this = findE_loop callbackFn (entries this) (entries this)"

text \<open>
  \<^verbatim>\<open>associatedRecord === associationValue\<close> in the to-one matcher of the reverse side:
  \<^verbatim>\<open>find\<close> and \<^verbatim>\<open>where\<close> hand the matcher the Record object, and \<^verbatim>\<open>associationValue\<close> is the
  plain value of a key field. An object is never strictly equal to plain data.
\<close>

definition record_strict_equals :: "'r \<Rightarrow> jsval \<Rightarrow> bool" where
  "record_strict_equals associatedRecord associationValue = False"

text \<open>
  \<^verbatim>\<open>raw r name\<close> is the stored value of a field of a record, \<^verbatim>\<open>record[name]\<close> and
  \<^verbatim>\<open>record[$recordValue][name]\<close>: the Record class is not in the sources.
\<close>

definition getAssociatedRecords ::
  "('r \<Rightarrow> string \<Rightarrow> jsval) \<Rightarrow> 'r relationship \<Rightarrow> 'r \<Rightarrow> error + 'r resolved" where
  "getAssociatedRecords raw rel record =
     (if isToOne (rel_type rel)
      then (let associationValue = raw record (rel_name rel)
            in Inr (OneRecord (map_get associationValue (entries (records (rel_to rel))))))
      else (let associationValues =
                  (if js_truthy (raw record (rel_name rel)) then raw record (rel_name rel)
                   else Arr []);
                associatedRecordsKeyName = key_name (rel_to rel)
            in case whereE (\<lambda>associatedRecord k es.
                         js_includes associationValues (raw associatedRecord associatedRecordsKeyName))
                      (records (rel_to rel)) of
                 Inl err \<Rightarrow> Inl err
               | Inr rs \<Rightarrow> Inr (ManyRecords rs)))"

definition getAssociatedRecordsReverse ::
  "('r \<Rightarrow> string \<Rightarrow> jsval) \<Rightarrow> 'r relationship \<Rightarrow> 'r \<Rightarrow> error + 'r resolved" where
  "getAssociatedRecordsReverse raw rel record =
     (let associationValue = raw record (key_name (rel_to rel));
          matcher =
            (if isToOne (rel_type rel)
             then (\<lambda>associatedRecord k es. Inr (record_strict_equals associatedRecord associationValue))
             else (\<lambda>associatedRecord k es.
                     let associatedRecordValue = raw associatedRecord (rel_name rel)
                     in if associatedRecordValue \<in> set [Undefined, Null] then Inr False
                        else js_includes (raw associatedRecord (rel_name rel)) associationValue))
      in if isFromOne (rel_type rel)
         then (case findE matcher (records (rel_from rel)) of
                 Inl err \<Rightarrow> Inl err
               | Inr r \<Rightarrow> Inr (OneRecord r))
         else (case whereE matcher (records (rel_from rel)) of
                 Inl err \<Rightarrow> Inl err
               | Inr rs \<Rightarrow> Inr (ManyRecords rs)))"

text \<open>\<^verbatim>\<open>get(modelName, property, record)\<close>\<close>

definition get_rel ::
  "('r \<Rightarrow> string \<Rightarrow> jsval) \<Rightarrow> 'r relationship \<Rightarrow> string \<Rightarrow> string \<Rightarrow> 'r
     \<Rightarrow> error + 'r resolved" where
  "get_rel raw rel modelName property record =
     (if modelName = model_name (rel_from rel) \<and> property = rel_name rel
      then getAssociatedRecords raw rel record
      else if modelName = model_name (rel_to rel) \<and> property = rel_reverseName rel
      then getAssociatedRecordsReverse raw rel record
      else Inr NoResult)"

text \<open>A foreign-key value that holds the key: a list with the key in it.\<close>

definition holds_key :: "jsval \<Rightarrow> jsval \<Rightarrow> bool" where
  "holds_key foreignKeys k = (case foreignKeys of Arr xs \<Rightarrow> k \<in> set xs | _ \<Rightarrow> False)"

definition key_list_or_empty :: "jsval \<Rightarrow> bool" where
  "key_list_or_empty v =
     (case v of Arr xs \<Rightarrow> True | Undefined \<Rightarrow> True | Null \<Rightarrow> True | _ \<Rightarrow> False)"

text \<open>A blog: post 1 has the author 2 and the tags \<^verbatim>\<open>[7]\<close>.\<close>

definition blog_raw :: "nat \<Rightarrow> string \<Rightarrow> jsval" where
  "blog_raw r name =
     (if name = ''id'' then Num (of_nat r)
      else if r = 1 \<and> name = ''author'' then Num 2
      else if r = 1 \<and> name = ''tags'' then Arr [Num 7]
      else Undefined)"

definition posts :: "nat model" where
  "posts = \<lparr>model_name = ''Post'', key_name = ''id'',
            records = \<lparr>entries = [(Num 1, 1)], scopes = [], accessors = []\<rparr>\<rparr>"

definition authors :: "nat model" where
  "authors = \<lparr>model_name = ''Author'', key_name = ''id'',
              records = \<lparr>entries = [(Num 2, 2)], scopes = [], accessors = []\<rparr>\<rparr>"

definition tags :: "nat model" where
  "tags = \<lparr>model_name = ''Tag'', key_name = ''id'',
           records = \<lparr>entries = [(Num 7, 7)], scopes = [], accessors = []\<rparr>\<rparr>"

definition post_author :: "relationship_type \<Rightarrow> nat relationship" where
  "post_author t = \<lparr>rel_type = t, rel_from = posts, rel_to = authors,
                    rel_name = ''author'', rel_reverseName = ''posts''\<rparr>"

definition post_tags :: "nat relationship" where
  "post_tags = \<lparr>rel_type = ManyToMany, rel_from = posts, rel_to = tags,
                 rel_name = ''tags'', rel_reverseName = ''posts''\<rparr>"

section \<open>addScope\<close>

text \<open>
  An argument that should be a function: a function, or anything else, of which only the
  truthiness is read (\<^verbatim>\<open>undefined\<close>, an argument left out, is falsy).
\<close>

datatype 'f js_arg = Function 'f | NotFunction bool

definition arg_truthy :: "'f js_arg \<Rightarrow> bool" where
  "arg_truthy a = (case a of Function f \<Rightarrow> True | NotFunction t \<Rightarrow> t)"

text \<open>\<^verbatim>\<open>Object.getOwnPropertyNames(RecordSet.prototype)\<close>: the methods and getters of the class
  with a string name, in the order of the class body.\<close>

definition recordset_prototype_names :: "string list" where
  "recordset_prototype_names =
     [''constructor'', ''set'', ''delete'', ''clear'', ''map'', ''reduce'', ''filter'', ''find'',
      ''findId'', ''only'', ''except'', ''sort'', ''every'', ''some'', ''select'', ''pluck'',
      ''groupBy'', ''duplicate'', ''merge'', ''append'', ''where'', ''whereNot'',
      ''batchIterator'', ''limit'', ''offset'', ''slice'', ''first'', ''last'', ''count'',
      ''length'', ''ids'', ''toArray'', ''toObject'', ''toJSON'']"

text \<open>The members of \<^verbatim>\<open>Map.prototype\<close> with a string name; \<^verbatim>\<open>size\<close> is a getter, the others
  are methods.\<close>

definition map_prototype_names :: "string list" where
  "map_prototype_names =
     [''constructor'', ''get'', ''set'', ''has'', ''delete'', ''clear'', ''entries'', ''forEach'',
      ''keys'', ''size'', ''values'']"

text \<open>
  \<^verbatim>\<open>this.size\<close> as the getters of the class read it: the number of entries, a number that is
  0 for the empty set (\<^verbatim>\<open>Inr True\<close> says that it is 0); or, when a scope named \<^verbatim>\<open>size\<close> has
  put an accessor of that name on the object, what \<^verbatim>\<open>#scopedWhere\<close> yields, a RecordSet,
  which is truthy and is not 0.
\<close>

definition this_size_is_zero :: "('k, 'v) recordset \<Rightarrow> error + bool" where
  "this_size_is_zero this =
     (if ''size'' \<in> set (accessors this)
      then (case scopedWhere ''size'' this of Inl err \<Rightarrow> Inl err | Inr found \<Rightarrow> Inr False)
      else Inr (entries this = []))"

text \<open>
  The truthiness of \<^verbatim>\<open>this[name]\<close>, looked up on the object, then along
  \<^verbatim>\<open>RecordSet.prototype\<close>, \<^verbatim>\<open>Map.prototype\<close> and \<^verbatim>\<open>Object.prototype\<close>. An accessor runs
  \<^verbatim>\<open>#scopedWhere\<close> and yields a RecordSet. \<^verbatim>\<open>first\<close> yields the first record or \<^verbatim>\<open>undefined\<close>.
  \<^verbatim>\<open>last\<close> yields \<^verbatim>\<open>undefined\<close> when \<^verbatim>\<open>this.size === 0\<close> and else
  \<^verbatim>\<open>[...this.entries()].pop()[1]\<close>, which reads an index of \<^verbatim>\<open>undefined\<close> when there is no
  entry. \<^verbatim>\<open>count\<close> and \<^verbatim>\<open>length\<close> yield \<^verbatim>\<open>this.size\<close>. Of the inherited members \<^verbatim>\<open>size\<close> is
  the number of entries; every other one is a function or an object. A name that is nowhere
  yields \<^verbatim>\<open>undefined\<close>.
\<close>

definition this_property_truthy :: "string \<Rightarrow> ('k, 'v) recordset \<Rightarrow> error + bool" where
  "this_property_truthy name this =
     (if name \<in> set (accessors this)
      then (case scopedWhere name this of Inl err \<Rightarrow> Inl err | Inr found \<Rightarrow> Inr True)
      else if name = ''first'' then Inr (entries this \<noteq> [])
      else if name = ''last''
      then (case this_size_is_zero this of
              Inl err \<Rightarrow> Inl err
            | Inr zero \<Rightarrow>
                if zero then Inr False
                else if entries this = [] then Inl TypeError
                else Inr True)
      else if name \<in> set [''count'', ''length'']
      then (case this_size_is_zero this of Inl err \<Rightarrow> Inl err | Inr zero \<Rightarrow> Inr (\<not> zero))
      else if name \<in> set recordset_prototype_names then Inr True
      else if name = ''size'' then Inr (entries this \<noteq> [])
      else Inr (name \<in> set map_prototype_names \<or> name \<in> set object_prototype_names))"

definition validateProperty ::
  "string \<Rightarrow> 'f js_arg \<Rightarrow> (string, 's) entries \<Rightarrow> error + 'f" where
  "validateProperty callbackName callback callbacks =
     (case callback of
        NotFunction t \<Rightarrow> Inl TypeError
      | Function f \<Rightarrow> if map_has callbackName callbacks then Inl DuplicationError else Inr f)"

definition validateFunction :: "string \<Rightarrow> 'f js_arg \<Rightarrow> error + 'f" where
  "validateFunction callbackName callback =
     (case callback of NotFunction t \<Rightarrow> Inl TypeError | Function f \<Rightarrow> Inr f)"

text \<open>What a statement throws, its value dropped.\<close>

definition thrown :: "error + 'a \<Rightarrow> error option" where
  "thrown outcome = (case outcome of Inl err \<Rightarrow> Some err | Inr x \<Rightarrow> None)"

text \<open>\<^verbatim>\<open>#scopedWhere\<close> sorts only by a truthy comparator: a comparator that is not a function
  got past \<^verbatim>\<open>if (sortFn)\<close> by being falsy, and is kept as no comparator.\<close>

definition stored_comparator :: "'f js_arg \<Rightarrow> 'f option" where
  "stored_comparator sortFn = (case sortFn of Function f \<Rightarrow> Some f | NotFunction t \<Rightarrow> None)"

text \<open>\<^verbatim>\<open>[$addScope](name, scope, sortFn)\<close>\<close>

definition addScope ::
  "string \<Rightarrow> ('k, 'v) callback js_arg \<Rightarrow> ('k, 'v) comparator js_arg \<Rightarrow> ('k, 'v) recordset
     \<Rightarrow> error + ('k, 'v) recordset" where
  "addScope name scope sortFn this =
     (case validateProperty name scope (scopes this) of
        Inl err \<Rightarrow> Inl err
      | Inr matcherFn \<Rightarrow>
          (case (if arg_truthy sortFn then thrown (validateFunction name sortFn) else None) of
             Some err \<Rightarrow> Inl err
           | None \<Rightarrow>
               (case this_property_truthy name this of
                  Inl err \<Rightarrow> Inl err
                | Inr truthy \<Rightarrow>
                    if truthy \<or> name \<in> set recordset_prototype_names then Inl NameError
                    else Inr (this\<lparr>scopes := map_set name (matcherFn, stored_comparator sortFn)
                                              (scopes this),
                                  accessors := accessors this @ [name]\<rparr>))))"

section \<open>RecordSets as objects\<close>

text \<open>
  A RecordSet is an object, and the records in it are references to Record objects. The
  store holds both: \<^verbatim>\<open>sets\<close> are the RecordSet objects, the address of one being its index,
  and \<^verbatim>\<open>objects\<close> gives the contents of the Record a reference points to. A method is
  called on an address; what it returns is an address too, so that a method that returned
  \<^verbatim>\<open>this\<close> and one that returned a copy are different functions.
\<close>

type_synonym addr = nat

record ('k, 'r, 'f) store =
  sets :: "('k, 'r) recordset list"
  objects :: "'r \<Rightarrow> 'f"

definition lookup :: "addr \<Rightarrow> ('k, 'r, 'f) store \<Rightarrow> ('k, 'r) recordset option" where
  "lookup a st = (if a < length (sets st) then Some (sets st ! a) else None)"

text \<open>The object a \<^verbatim>\<open>new\<close> expression makes takes the next address.\<close>

definition alloc :: "('k, 'r) recordset \<Rightarrow> ('k, 'r, 'f) store \<Rightarrow> addr \<times> ('k, 'r, 'f) store" where
  "alloc this st = (length (sets st), st\<lparr>sets := sets st @ [this]\<rparr>)"

fun lookup_all :: "addr list \<Rightarrow> ('k, 'r, 'f) store \<Rightarrow> ('k, 'r) recordset list option" where
  "lookup_all [] st = Some []"
| "lookup_all (a # as) st =
     (case lookup a st of
        None \<Rightarrow> None
      | Some this \<Rightarrow> (case lookup_all as st of None \<Rightarrow> None | Some rest \<Rightarrow> Some (this # rest)))"

text \<open>
  \<^verbatim>\<open>new RecordSet({ iterable, copyScopesFrom })\<close> where \<^verbatim>\<open>copyScopesFrom\<close> is an object: the
  constructor reads the scope table of that object and fills a new one. Reading the scopes
  of what is no RecordSet throws.
\<close>

definition new_RecordSet_obj ::
  "('k, 'r) entries \<Rightarrow> addr option \<Rightarrow> ('k, 'r, 'f) store \<Rightarrow> (error + addr) \<times> ('k, 'r, 'f) store" where
  "new_RecordSet_obj iterable copyScopesFrom st =
     (case copyScopesFrom of
        None \<Rightarrow> (case alloc (new_RecordSet iterable None) st of (d, st') \<Rightarrow> (Inr d, st'))
      | Some a \<Rightarrow>
          (case lookup a st of
             None \<Rightarrow> (Inl TypeError, st)
           | Some otherRecordSet \<Rightarrow>
               (case alloc (new_RecordSet iterable (Some otherRecordSet)) st of
                  (d, st') \<Rightarrow> (Inr d, st'))))"

subsection \<open>The entry points under a symbol\<close>

text \<open>
  \<^verbatim>\<open>[$set]\<close>, \<^verbatim>\<open>[$delete]\<close>, \<^verbatim>\<open>[$clearRecordSetForTesting]\<close> and \<^verbatim>\<open>[$addScope]\<close> write to the
  object they are called on; \<^verbatim>\<open>[$addScope]\<close> writes nothing when it throws. An address that
  holds no RecordSet has none of them.
\<close>

definition write_obj ::
  "(('k, 'r) recordset \<Rightarrow> ('k, 'r) recordset) \<Rightarrow> addr \<Rightarrow> ('k, 'r, 'f) store \<Rightarrow> ('k, 'r, 'f) store" where
  "write_obj method a st =
     (case lookup a st of
        None \<Rightarrow> st
      | Some this \<Rightarrow> st\<lparr>sets := (sets st)[a := method this]\<rparr>)"

definition set_priv_obj :: "'k \<Rightarrow> 'r \<Rightarrow> addr \<Rightarrow> ('k, 'r, 'f) store \<Rightarrow> ('k, 'r, 'f) store" where
  "set_priv_obj key v a st = write_obj (set_priv key v) a st"

definition delete_priv_obj :: "'k \<Rightarrow> addr \<Rightarrow> ('k, 'r, 'f) store \<Rightarrow> ('k, 'r, 'f) store" where
  "delete_priv_obj key a st = write_obj (delete_priv key) a st"

definition clearRecordSetForTesting_obj :: "addr \<Rightarrow> ('k, 'r, 'f) store \<Rightarrow> ('k, 'r, 'f) store" where
  "clearRecordSetForTesting_obj a st = write_obj clearRecordSetForTesting a st"

definition addScope_obj ::
  "string \<Rightarrow> ('k, 'r) callback js_arg \<Rightarrow> ('k, 'r) comparator js_arg \<Rightarrow> addr
     \<Rightarrow> ('k, 'r, 'f) store \<Rightarrow> ('k, 'r, 'f) store" where
  "addScope_obj name scope sortFn a st =
     write_obj (\<lambda>this. case addScope name scope sortFn this of
                         Inl err \<Rightarrow> this
                       | Inr this' \<Rightarrow> this') a st"

subsection \<open>The derivations, called on an object\<close>

text \<open>
  Each method as the class writes it: what it reads of \<^verbatim>\<open>this\<close>, the \<^verbatim>\<open>new RecordSet\<close> it
  makes, and what it writes to. \<^verbatim>\<open>filter\<close> and \<^verbatim>\<open>append\<close> make the new set first and then
  call \<^verbatim>\<open>[$set]\<close> on it; the others hand the entries to the constructor. \<^verbatim>\<open>merge\<close> collects
  the entries in a native Map of its own and makes the RecordSet last.
\<close>

fun filter_obj_loop ::
  "('k, 'r) callback \<Rightarrow> ('k, 'r) entries \<Rightarrow> addr \<Rightarrow> ('k, 'r) entries \<Rightarrow> ('k, 'r, 'f) store
     \<Rightarrow> ('k, 'r, 'f) store" where
  "filter_obj_loop callbackFn this_entries newMap [] st = st"
| "filter_obj_loop callbackFn this_entries newMap (e # es) st =
     filter_obj_loop callbackFn this_entries newMap es
       (if callbackFn (snd e) (fst e) this_entries then set_priv_obj (fst e) (snd e) newMap st
        else st)"

definition filter_obj ::
  "('k, 'r) callback \<Rightarrow> addr \<Rightarrow> ('k, 'r, 'f) store \<Rightarrow> (error + addr) \<times> ('k, 'r, 'f) store" where
  "filter_obj callbackFn a st =
     (case lookup a st of
        None \<Rightarrow> (Inl TypeError, st)
      | Some this \<Rightarrow>
          (case new_RecordSet_obj [] (Some a) st of
             (Inl err, st') \<Rightarrow> (Inl err, st')
           | (Inr newMap, st') \<Rightarrow>
               (Inr newMap,
                filter_obj_loop callbackFn (entries this) newMap (entries this) st')))"

definition sort_obj ::
  "('k, 'r) comparator \<Rightarrow> addr \<Rightarrow> ('k, 'r, 'f) store \<Rightarrow> (error + addr) \<times> ('k, 'r, 'f) store" where
  "sort_obj comparatorFn a st =
     (case lookup a st of
        None \<Rightarrow> (Inl TypeError, st)
      | Some this \<Rightarrow>
          (let sorted = js_sort (entry_cmp comparatorFn) (entries this)
           in new_RecordSet_obj sorted (Some a) st))"

definition duplicate_obj ::
  "addr \<Rightarrow> ('k, 'r, 'f) store \<Rightarrow> (error + addr) \<times> ('k, 'r, 'f) store" where
  "duplicate_obj a st =
     (case lookup a st of
        None \<Rightarrow> (Inl TypeError, st)
      | Some this \<Rightarrow> new_RecordSet_obj (entries this) (Some a) st)"

definition merge_obj ::
  "addr list \<Rightarrow> addr \<Rightarrow> ('k, 'r, 'f) store \<Rightarrow> (error + addr) \<times> ('k, 'r, 'f) store" where
  "merge_obj others a st =
     (case lookup a st of
        None \<Rightarrow> (Inl TypeError, st)
      | Some this \<Rightarrow>
          (case lookup_all others st of
             None \<Rightarrow> (Inl TypeError, st)
           | Some recordSets \<Rightarrow>
               (case merge_sets (new_Map (entries this)) recordSets of
                  Inl err \<Rightarrow> (Inl err, st)
                | Inr res \<Rightarrow> new_RecordSet_obj res (Some a) st)))"

text \<open>\<^verbatim>\<open>field_id\<close> reads the \<^verbatim>\<open>id\<close> of the contents of a record.\<close>

fun append_obj_loop ::
  "('f \<Rightarrow> 'k) \<Rightarrow> addr \<Rightarrow> 'r list \<Rightarrow> ('k, 'r, 'f) store \<Rightarrow> ('k, 'r, 'f) store" where
  "append_obj_loop field_id res [] st = st"
| "append_obj_loop field_id res (r # rs) st =
     append_obj_loop field_id res rs (set_priv_obj (field_id (objects st r)) r res st)"

definition append_obj ::
  "('f \<Rightarrow> 'k) \<Rightarrow> 'r list \<Rightarrow> addr \<Rightarrow> ('k, 'r, 'f) store
     \<Rightarrow> (error + addr) \<times> ('k, 'r, 'f) store" where
  "append_obj field_id recs a st =
     (case lookup a st of
        None \<Rightarrow> (Inl TypeError, st)
      | Some this \<Rightarrow>
          (case new_RecordSet_obj (entries this) (Some a) st of
             (Inl err, st') \<Rightarrow> (Inl err, st')
           | (Inr res, st') \<Rightarrow> (Inr res, append_obj_loop field_id res recs st')))"

definition only_obj ::
  "'k list \<Rightarrow> addr \<Rightarrow> ('k, 'r, 'f) store \<Rightarrow> (error + addr) \<times> ('k, 'r, 'f) store" where
  "only_obj ids a st =
     (case lookup a st of
        None \<Rightarrow> (Inl TypeError, st)
      | Some this \<Rightarrow> new_RecordSet_obj (only_reduce (entries this) [] ids) (Some a) st)"

definition except_obj ::
  "'k list \<Rightarrow> addr \<Rightarrow> ('k, 'r, 'f) store \<Rightarrow> (error + addr) \<times> ('k, 'r, 'f) store" where
  "except_obj ids a st =
     (case lookup a st of
        None \<Rightarrow> (Inl TypeError, st)
      | Some this \<Rightarrow>
          new_RecordSet_obj (filter (\<lambda>e. fst e \<notin> set ids) (entries this)) (Some a) st)"

definition slice_obj ::
  "int option \<Rightarrow> int option \<Rightarrow> addr \<Rightarrow> ('k, 'r, 'f) store
     \<Rightarrow> (error + addr) \<times> ('k, 'r, 'f) store" where
  "slice_obj start end a st =
     (case lookup a st of
        None \<Rightarrow> (Inl TypeError, st)
      | Some this \<Rightarrow> new_RecordSet_obj (js_slice start end (entries this)) (Some a) st)"

definition limit_obj ::
  "int \<Rightarrow> addr \<Rightarrow> ('k, 'r, 'f) store \<Rightarrow> (error + addr) \<times> ('k, 'r, 'f) store" where
  "limit_obj n a st =
     (case lookup a st of
        None \<Rightarrow> (Inl TypeError, st)
      | Some this \<Rightarrow> new_RecordSet_obj (limit_loop n [] (entries this)) (Some a) st)"

definition offset_obj ::
  "int \<Rightarrow> addr \<Rightarrow> ('k, 'r, 'f) store \<Rightarrow> (error + addr) \<times> ('k, 'r, 'f) store" where
  "offset_obj n a st =
     (case lookup a st of
        None \<Rightarrow> (Inl TypeError, st)
      | Some this \<Rightarrow> new_RecordSet_obj (offset_loop n 0 [] (entries this)) (Some a) st)"

text \<open>A call of one of the ten derivations.\<close>

datatype ('k, 'r) derivation =
    Filter "('k, 'r) callback"
  | Sort "('k, 'r) comparator"
  | Duplicate
  | Merge "addr list"
  | Append "'r list"
  | Only "'k list"
  | Except "'k list"
  | Slice "int option" "int option"
  | Limit int
  | Offset int

definition derive ::
  "('f \<Rightarrow> 'k) \<Rightarrow> ('k, 'r) derivation \<Rightarrow> addr \<Rightarrow> ('k, 'r, 'f) store
     \<Rightarrow> (error + addr) \<times> ('k, 'r, 'f) store" where
  "derive field_id operation a st =
     (case operation of
        Filter callbackFn \<Rightarrow> filter_obj callbackFn a st
      | Sort comparatorFn \<Rightarrow> sort_obj comparatorFn a st
      | Duplicate \<Rightarrow> duplicate_obj a st
      | Merge others \<Rightarrow> merge_obj others a st
      | Append recs \<Rightarrow> append_obj field_id recs a st
      | Only ids \<Rightarrow> only_obj ids a st
      | Except ids \<Rightarrow> except_obj ids a st
      | Slice start end \<Rightarrow> slice_obj start end a st
      | Limit n \<Rightarrow> limit_obj n a st
      | Offset n \<Rightarrow> offset_obj n a st)"

subsection \<open>Model.updateRecord\<close>

text \<open>
  The data \<^verbatim>\<open>updateRecord(recordId, record)\<close> is given: something whose \<^verbatim>\<open>typeof\<close> is not
  \<^verbatim>\<open>'object'\<close>, or \<^verbatim>\<open>null\<close>, or an object, of which \<^verbatim>\<open>Object.entries\<close> reads the fields in
  their order.
\<close>

datatype record_data = NotAnObject | NullData | Fields "(string \<times> jsval) list"

text \<open>
  A Record is created with the handler of its model, and \<^verbatim>\<open>oldRecord[fieldName] = fieldValue\<close>
  goes through it: the handler gives the contents of the record after the assignment, or
  throws.
\<close>

type_synonym 'f handler = "'f \<Rightarrow> string \<Rightarrow> jsval \<Rightarrow> error + 'f"

text \<open>The \<^verbatim>\<open>forEach\<close> over the fields: an assignment that throws ends it, and what was
  assigned before stays assigned.\<close>

fun assign_fields ::
  "'f handler \<Rightarrow> 'r \<Rightarrow> (string \<times> jsval) list \<Rightarrow> ('k, 'r, 'f) store
     \<Rightarrow> (error + 'r) \<times> ('k, 'r, 'f) store" where
  "assign_fields handler oldRecord [] st = (Inr oldRecord, st)"
| "assign_fields handler oldRecord ((fieldName, fieldValue) # rest) st =
     (case handler (objects st oldRecord) fieldName fieldValue of
        Inl err \<Rightarrow> (Inl err, st)
      | Inr contents \<Rightarrow>
          assign_fields handler oldRecord rest
            (st\<lparr>objects := (objects st)(oldRecord := contents)\<rparr>))"

text \<open>
  \<^verbatim>\<open>updateRecord\<close> of the Model whose \<^verbatim>\<open>#records\<close> is the RecordSet at the address: it looks
  the record up and assigns to the fields of the object it finds; it calls no method of the
  RecordSet that writes.
\<close>

definition updateRecord ::
  "'f handler \<Rightarrow> 'k \<Rightarrow> record_data \<Rightarrow> addr \<Rightarrow> ('k, 'r, 'f) store
     \<Rightarrow> (error + 'r) \<times> ('k, 'r, 'f) store" where
  "updateRecord handler recordId recordData a st =
     (case lookup a st of
        None \<Rightarrow> (Inl TypeError, st)
      | Some recordSet \<Rightarrow>
          if recordData = NotAnObject then (Inl TypeError, st)
          else if \<not> map_has recordId (entries recordSet) then (Inl ReferenceError, st)
          else (case map_get recordId (entries recordSet) of
                  None \<Rightarrow> (Inl TypeError, st)
                | Some oldRecord \<Rightarrow>
                    (case recordData of
                       Fields fs \<Rightarrow> assign_fields handler oldRecord fs st
                     | NullData \<Rightarrow> (Inl TypeError, st)
                     | NotAnObject \<Rightarrow> (Inl TypeError, st))))"

subsection \<open>Writes to the live store\<close>

text \<open>
  What a Model does to its RecordSet: a call of an entry point under a symbol, or
  \<^verbatim>\<open>updateRecord\<close>. \<^verbatim>\<open>mutate\<close> gives the store after the call, whether it returned or threw.
\<close>

datatype ('k, 'r) mutation =
    SetPriv 'k 'r
  | DeletePriv 'k
  | ClearRecordSetForTesting
  | AddScope string "('k, 'r) callback js_arg" "('k, 'r) comparator js_arg"
  | UpdateRecord 'k record_data

definition mutate ::
  "'f handler \<Rightarrow> ('k, 'r) mutation \<Rightarrow> addr \<Rightarrow> ('k, 'r, 'f) store \<Rightarrow> ('k, 'r, 'f) store" where
  "mutate handler m a st =
     (case m of
        SetPriv key v \<Rightarrow> set_priv_obj key v a st
      | DeletePriv key \<Rightarrow> delete_priv_obj key a st
      | ClearRecordSetForTesting \<Rightarrow> clearRecordSetForTesting_obj a st
      | AddScope name scope sortFn \<Rightarrow> addScope_obj name scope sortFn a st
      | UpdateRecord recordId recordData \<Rightarrow>
          snd (updateRecord handler recordId recordData a st))"

fun mutate_all ::
  "'f handler \<Rightarrow> ('k, 'r) mutation list \<Rightarrow> addr \<Rightarrow> ('k, 'r, 'f) store \<Rightarrow> ('k, 'r, 'f) store" where
  "mutate_all handler [] a st = st"
| "mutate_all handler (m # ms) a st = mutate_all handler ms a (mutate handler m a st)"

text \<open>The calls that are entry points of the RecordSet, as opposed to \<^verbatim>\<open>updateRecord\<close>.\<close>

fun entry_point :: "('k, 'r) mutation \<Rightarrow> bool" where
  "entry_point (UpdateRecord recordId recordData) = False"
| "entry_point m = True"

text \<open>What can be seen of the RecordSet at an address: its keys in order, each with the
  contents of the record under it.\<close>

definition field_values :: "addr \<Rightarrow> ('k, 'r, 'f) store \<Rightarrow> ('k \<times> 'f) list option" where
  "field_values a st =
     (case lookup a st of
        None \<Rightarrow> None
      | Some this \<Rightarrow> Some (map (\<lambda>e. (fst e, objects st (snd e))) (entries this)))"

text \<open>A public mutator called on the RecordSet at an address: the outcome, and the store
  with what the method left of the set.\<close>

definition call_public ::
  "(('k, 'r) recordset \<Rightarrow> (error + 'x) \<times> ('k, 'r) recordset) \<Rightarrow> addr \<Rightarrow> ('k, 'r, 'f) store
     \<Rightarrow> (error + 'x) \<times> ('k, 'r, 'f) store" where
  "call_public method a st =
     (case lookup a st of
        None \<Rightarrow> (Inl TypeError, st)
      | Some this \<Rightarrow>
          (case method this of (outcome, this') \<Rightarrow> (outcome, st\<lparr>sets := (sets st)[a := this']\<rparr>)))"

text \<open>A store with the set of people at address 0; the contents of a record show its age.\<close>

definition town :: "(nat, nat \<times> string, nat) store" where
  "town = \<lparr>sets = [people], objects = fst\<rparr>"

text \<open>
  A store with two books: the RecordSet at address 0 holds the references 10 and 11 under
  the keys 1 and 2 and has one scope.
\<close>

definition first_key :: "(nat, nat) callback" where
  "first_key v k this_entries = (k = 1)"

definition books :: "(nat, nat) recordset" where
  "books = \<lparr>entries = [(1, 10), (2, 11)], scopes = [(''opening'', (first_key, None))],
            accessors = [''opening'']\<rparr>"

definition book_contents :: "nat \<Rightarrow> (string \<times> jsval) list" where
  "book_contents r =
     (if r = 10 then [(''id'', Num 1), (''title'', Str ''Emma'')]
      else if r = 11 then [(''id'', Num 2), (''title'', Str ''Persuasion'')]
      else [])"

definition shelf :: "(nat, nat, (string \<times> jsval) list) store" where
  "shelf = \<lparr>sets = [books], objects = book_contents\<rparr>"

text \<open>\<^verbatim>\<open>record.id\<close> of such contents.\<close>

definition book_id :: "(string \<times> jsval) list \<Rightarrow> nat" where
  "book_id contents = (case map_get ''id'' contents of Some (Num n) \<Rightarrow> unat n | _ \<Rightarrow> 0)"

text \<open>
  Modelled from the spec: a Record is a key and field values and is opaque beyond them, and
  the class of its handler is not among these sources. The handler taken here does what the
  assignment of the language does to an object: it stores the value under the name.
\<close>

definition plain_assignment :: "((string \<times> jsval) list) handler" where
  "plain_assignment contents fieldName fieldValue = Inr (map_set fieldName fieldValue contents)"

section \<open>Properties of the Map operations\<close>

lemma map_has_iff: "map_has k es \<longleftrightarrow> k \<in> set (map fst es)"
  by (induction es) auto

lemma map_get_map_of: "map_get k es = map_of es k"
  by (induction es) auto

lemma map_set_new: "k \<notin> set (map fst es) \<Longrightarrow> map_set k v es = es @ [(k, v)]"
  by (induction es) auto

lemma map_set_keys:
  "map fst (map_set k v es) = (if k \<in> set (map fst es) then map fst es else map fst es @ [k])"
  by (induction es) auto

lemma map_set_distinct: "distinct (map fst es) \<Longrightarrow> distinct (map fst (map_set k v es))"
  by (simp add: map_set_keys)

lemma map_delete_keys:
  "distinct (map fst es) \<Longrightarrow> map fst (map_delete k es) = removeAll k (map fst es)"
  by (induction es) (auto simp: distinct_removeAll)

lemma map_delete_distinct:
  "distinct (map fst es) \<Longrightarrow> distinct (map fst (map_delete k es))"
  by (simp add: map_delete_keys distinct_removeAll)

lemma insert_all_distinct_acc:
  "distinct (map fst m) \<Longrightarrow> distinct (map fst (insert_all m es))"
  by (induction es arbitrary: m) (auto simp: map_set_distinct)

lemma insert_all_append:
  "distinct (map fst (m @ es)) \<Longrightarrow> insert_all m es = m @ es"
proof (induction es arbitrary: m)
  case Nil
  then show ?case by simp
next
  case (Cons e es)
  have new: "fst e \<notin> set (map fst m)" using Cons.prems by auto
  have "insert_all m (e # es) = insert_all (m @ [e]) es"
    by (simp add: map_set_new [OF new])
  also have "\<dots> = (m @ [e]) @ es"
    using Cons.prems by (intro Cons.IH) simp
  finally show ?case by simp
qed

lemma insert_all_distinct: "distinct (map fst es) \<Longrightarrow> insert_all [] es = es"
  using insert_all_append [of "[]" es] by simp

lemma new_Map_distinct: "distinct (map fst es) \<Longrightarrow> new_Map es = es"
  by (simp add: new_Map_def insert_all_distinct)

section \<open>Properties of the constructor\<close>

lemma copyScopes_loop_entries: "entries (copyScopes_loop this ss) = entries this"
  by (induction ss arbitrary: this) auto

lemma copyScopes_loop_scopes: "scopes (copyScopes_loop this ss) = insert_all (scopes this) ss"
  by (induction ss arbitrary: this) auto

lemma copyScopes_loop_accessors:
  "accessors (copyScopes_loop this ss) = accessors this @ map fst ss"
  by (induction ss arbitrary: this) auto

lemma new_RecordSet_entries: "entries (new_RecordSet it src) = insert_all [] it"
  by (cases src) (simp_all add: new_RecordSet_def copyScopes_def copyScopes_loop_entries)

lemma new_RecordSet_entries_distinct:
  "distinct (map fst it) \<Longrightarrow> entries (new_RecordSet it src) = it"
  by (simp add: new_RecordSet_entries insert_all_distinct)

lemma new_RecordSet_scopes:
  "distinct (map fst (scopes other)) \<Longrightarrow> scopes (new_RecordSet it (Some other)) = scopes other"
  by (simp add: new_RecordSet_def copyScopes_def copyScopes_loop_scopes insert_all_distinct)

lemma new_RecordSet_accessors:
  "accessors (new_RecordSet it (Some other)) = map fst (scopes other)"
  by (simp add: new_RecordSet_def copyScopes_def copyScopes_loop_accessors)

lemma new_RecordSet_inv: "rs_inv other \<Longrightarrow> rs_inv (new_RecordSet it (Some other))"
  by (simp add: rs_inv_def new_RecordSet_entries new_RecordSet_scopes new_RecordSet_accessors
      insert_all_distinct_acc)

lemma new_RecordSet_empty_inv: "rs_inv (new_RecordSet it None)"
  by (simp add: rs_inv_def new_RecordSet_def insert_all_distinct_acc)

lemma set_priv_inv: "rs_inv this \<Longrightarrow> rs_inv (set_priv k v this)"
  by (simp add: rs_inv_def set_priv_def map_set_distinct)

lemma delete_priv_inv: "rs_inv this \<Longrightarrow> rs_inv (delete_priv k this)"
  by (simp add: rs_inv_def delete_priv_def map_delete_distinct)

section \<open>limit\<close>

lemma limit_loop_nonpos: "n \<le> 0 \<Longrightarrow> limit_loop n pushed es = pushed @ es"
  by (induction es arbitrary: pushed) (auto simp: Let_def)

text \<open>
  C9. For a RecordSet \<open>S\<close> and an integer \<open>n \<le> 0\<close>, \<open>S.limit(n)\<close> holds all the entries of
  \<open>S\<close> in their order, under the scopes of \<open>S\<close>: the length is compared with \<open>n\<close> only after
  a push, when it is at least 1. So the result is empty only when \<open>S\<close> is.
\<close>

theorem limit_nonpositive_returns_all:
  assumes "rs_inv S" and "n \<le> 0"
  shows "entries (limit n S) = entries S \<and> scopes (limit n S) = scopes S \<and>
    (entries S \<noteq> [] \<longrightarrow> entries (limit n S) \<noteq> [])"
  using assms
  by (simp add: limit_def limit_loop_nonpos new_RecordSet_entries_distinct
      new_RecordSet_scopes rs_inv_def)

theorem limit_nonpositive_returns_all_witness:
  "rs_inv \<lparr>entries = [(1::nat, ''a''), (2, ''b'')], scopes = [], accessors = []\<rparr> \<and>
   (-1::int) \<le> 0 \<and>
   entries (limit (-1) \<lparr>entries = [(1::nat, ''a''), (2, ''b'')], scopes = [], accessors = []\<rparr>)
     = [(1, ''a''), (2, ''b'')]"
proof -
  have inv: "rs_inv \<lparr>entries = [(1::nat, ''a''), (2, ''b'')], scopes = [], accessors = []\<rparr>"
    by (simp add: rs_inv_def)
  have neg: "(-1::int) \<le> 0" by simp
  from limit_nonpositive_returns_all [OF inv neg] inv show ?thesis by simp
qed

section \<open>batchIterator\<close>

lemma batch_loop_concat: "concat (batch_loop n batch es) = batch @ es"
  by (induction es arbitrary: batch) (auto simp: Let_def)

lemma batch_loop_sizes:
  "int (length batch) < n \<Longrightarrow> b \<in> set (batch_loop n batch es) \<Longrightarrow>
     1 \<le> length b \<and> int (length b) \<le> n"
proof (induction es arbitrary: batch)
  case Nil
  then show ?case by (cases batch) (auto split: if_splits)
next
  case (Cons e es)
  show ?case
  proof (cases "int (length (batch @ [e])) = n")
    case True
    with Cons.prems(2) have "b = batch @ [e] \<or> b \<in> set (batch_loop n [] es)"
      by (auto simp: Let_def)
    moreover have "int (length ([]::'a list)) < n" using Cons.prems(1) by simp
    ultimately show ?thesis using True Cons.IH [of "[]"] by auto
  next
    case False
    with Cons.prems(2) have "b \<in> set (batch_loop n (batch @ [e]) es)"
      by (auto simp: Let_def)
    moreover have "int (length (batch @ [e])) < n" using False Cons.prems(1) by simp
    ultimately show ?thesis using Cons.IH by blast
  qed
qed

lemma batch_loop_full:
  "int (length batch) < n \<Longrightarrow> b \<in> set (butlast (batch_loop n batch es)) \<Longrightarrow>
     int (length b) = n"
proof (induction es arbitrary: batch)
  case Nil
  then show ?case by (auto split: if_splits)
next
  case (Cons e es)
  show ?case
  proof (cases "int (length (batch @ [e])) = n")
    case True
    with Cons.prems(2) have "b = batch @ [e] \<or> b \<in> set (butlast (batch_loop n [] es))"
      by (auto simp: Let_def split: if_splits)
    moreover have "int (length ([]::'a list)) < n" using Cons.prems(1) by simp
    ultimately show ?thesis using True Cons.IH [of "[]"] by auto
  next
    case False
    with Cons.prems(2) have "b \<in> set (butlast (batch_loop n (batch @ [e]) es))"
      by (auto simp: Let_def)
    moreover have "int (length (batch @ [e])) < n" using False Cons.prems(1) by simp
    ultimately show ?thesis using Cons.IH by blast
  qed
qed

lemma batch_loop_count:
  "int (length batch) < n \<Longrightarrow>
     int (length (batch_loop n batch es)) = (int (length batch) + int (length es) + n - 1) div n"
proof (induction es arbitrary: batch)
  case Nil
  show ?case
  proof (cases "length batch = 0")
    case True
    then show ?thesis using Nil by simp
  next
    case False
    have "(int (length batch) + n - 1) div n = 1"
      using False Nil by (intro int_div_pos_eq [where r = "int (length batch) - 1"]) auto
    then show ?thesis using False by simp
  qed
next
  case (Cons e es)
  show ?case
  proof (cases "int (length (batch @ [e])) = n")
    case True
    have pos: "0 < n" using Cons.prems by linarith
    have "int (length (batch_loop n batch (e # es))) = 1 + int (length (batch_loop n [] es))"
      using True by (simp add: Let_def)
    also have "\<dots> = 1 + (int (length es) + n - 1) div n"
      using Cons.IH [of "[]"] pos by simp
    also have "\<dots> = (n + (int (length es) + n - 1)) div n"
      using pos div_add_self1 [of n "int (length es) + n - 1"] by linarith
    also have "n + (int (length es) + n - 1) = int (length batch) + int (length (e # es)) + n - 1"
      using True by simp
    finally show ?thesis .
  next
    case False
    have lt: "int (length (batch @ [e])) < n" using False Cons.prems by simp
    have "int (length (batch_loop n batch (e # es))) = int (length (batch_loop n (batch @ [e]) es))"
      using False by (simp add: Let_def)
    also have "\<dots> = (int (length (batch @ [e])) + int (length es) + n - 1) div n"
      by (rule Cons.IH [OF lt])
    finally show ?thesis by (simp add: algebra_simps)
  qed
qed

lemma ceil_div:
  assumes "0 < (n::int)"
  shows "(m + n - 1) div n = \<lceil>real_of_int m / real_of_int n\<rceil>"
proof -
  define q r where "q = m div n" and "r = m mod n"
  have m: "m = n * q + r" by (simp add: q_def r_def)
  have r: "0 \<le> r" "r < n" using assms by (simp_all add: r_def)
  have "m + n - 1 = n * q + (r + n - 1)" using m by linarith
  then have "(m + n - 1) div n = (n * q + (r + n - 1)) div n" by (rule arg_cong)
  also have "\<dots> = q + (r + n - 1) div n" using assms by simp
  also have "(r + n - 1) div n = (if r = 0 then 0 else 1)"
  proof (cases "r = 0")
    case True
    then show ?thesis using assms by simp
  next
    case False
    have "(r + n - 1) div n = 1"
      using False r by (intro int_div_pos_eq [where r = "r - 1"]) auto
    then show ?thesis using False by simp
  qed
  finally have lhs: "(m + n - 1) div n = (if r = 0 then q else q + 1)" by simp
  have rhs: "- ((- m) div n) = (if r = 0 then q else q + 1)"
    using assms by (simp add: zdiv_zminus1_eq_if q_def r_def)
  show ?thesis using lhs rhs by (simp add: ceiling_divide_eq_div)
qed

lemma concat_part_distinct:
  assumes "distinct (map fst (concat bs))" and "b \<in> set bs"
  shows "distinct (map fst b)"
proof -
  from assms(2) obtain xs ys where "bs = xs @ b # ys" by (auto dest: split_list)
  then have "concat bs = concat xs @ b @ concat ys" by simp
  with assms(1) show ?thesis by simp
qed

lemma batchIterator_entries:
  assumes "distinct (map fst (entries S))"
  shows "map entries (batchIterator n S) = batch_loop n [] (entries S)"
proof -
  have "distinct (map fst b)" if "b \<in> set (batch_loop n [] (entries S))" for b
    using that assms concat_part_distinct [of "batch_loop n [] (entries S)" b]
    by (simp add: batch_loop_concat)
  then have "map (\<lambda>b. entries (new_RecordSet b (Some S))) (batch_loop n [] (entries S))
      = batch_loop n [] (entries S)"
    by (intro map_idI) (simp add: new_RecordSet_entries_distinct)
  then show ?thesis by (simp add: batchIterator_def comp_def)
qed

text \<open>
  C7. For a RecordSet of \<open>m\<close> entries and a batch size \<open>n \<ge> 1\<close>, \<open>batchIterator(n)\<close>
  yields \<open>\<lceil>m / n\<rceil>\<close> batches and none when the set is empty; every batch but the last
  has \<open>n\<close> entries, the last has between 1 and \<open>n\<close>; the batches put end to end are the
  entries of the set in insertion order; every batch has the scopes of the set.
\<close>

theorem batchIterator_batches:
  assumes "rs_inv S" and "1 \<le> n"
  shows "int (length (batchIterator n S)) = \<lceil>real (length (entries S)) / real_of_int n\<rceil> \<and>
    (entries S = [] \<longrightarrow> batchIterator n S = []) \<and>
    (\<forall>b \<in> set (butlast (batchIterator n S)). int (length (entries b)) = n) \<and>
    (batchIterator n S \<noteq> [] \<longrightarrow>
       1 \<le> length (entries (last (batchIterator n S))) \<and>
       int (length (entries (last (batchIterator n S)))) \<le> n) \<and>
    concat (map entries (batchIterator n S)) = entries S \<and>
    (\<forall>b \<in> set (batchIterator n S). scopes b = scopes S)"
proof -
  let ?bs = "batchIterator n S"
  let ?ls = "batch_loop n [] (entries S)"
  have dist: "distinct (map fst (entries S))" and sdist: "distinct (map fst (scopes S))"
    using assms(1) by (simp_all add: rs_inv_def)
  have ents: "map entries ?bs = ?ls" by (rule batchIterator_entries [OF dist])
  have start: "int (length ([]::('a \<times> 'b) list)) < n" using assms(2) by simp
  have len: "length ?bs = length ?ls" by (simp add: batchIterator_def)
  have "int (length ?ls) = (int (length (entries S)) + n - 1) div n"
    using batch_loop_count [OF start, of "entries S"] by simp
  also have "\<dots> = \<lceil>real_of_int (int (length (entries S))) / real_of_int n\<rceil>"
    using assms(2) by (intro ceil_div) simp
  finally have count: "int (length ?bs) = \<lceil>real (length (entries S)) / real_of_int n\<rceil>"
    by (simp add: len)
  have none: "entries S = [] \<longrightarrow> ?bs = []" by (simp add: batchIterator_def)
  have full: "\<forall>b \<in> set (butlast ?bs). int (length (entries b)) = n"
  proof
    fix b assume "b \<in> set (butlast ?bs)"
    then have "entries b \<in> set (butlast (map entries ?bs))" by (simp add: map_butlast [symmetric])
    then show "int (length (entries b)) = n"
      using batch_loop_full [OF start] by (simp add: ents)
  qed
  have lastb: "?bs \<noteq> [] \<longrightarrow> 1 \<le> length (entries (last ?bs)) \<and>
      int (length (entries (last ?bs))) \<le> n"
  proof
    assume ne: "?bs \<noteq> []"
    then have "entries (last ?bs) = last (map entries ?bs)" by (simp add: last_map)
    moreover have "last (map entries ?bs) \<in> set (map entries ?bs)"
      using ne by (intro last_in_set) simp
    ultimately have "entries (last ?bs) \<in> set ?ls" by (simp only: ents)
    then show "1 \<le> length (entries (last ?bs)) \<and> int (length (entries (last ?bs))) \<le> n"
      by (rule batch_loop_sizes [OF start])
  qed
  have cat: "concat (map entries ?bs) = entries S"
    by (simp only: ents batch_loop_concat) simp
  have sc: "\<forall>b \<in> set ?bs. scopes b = scopes S"
    by (auto simp: batchIterator_def new_RecordSet_scopes [OF sdist])
  from count none full lastb cat sc show ?thesis by blast
qed

theorem batchIterator_batches_witness:
  "rs_inv five \<and> (1::int) \<le> 2 \<and>
   map entries (batchIterator 2 five) =
     [[(1, ''a''), (2, ''b'')], [(3, ''c''), (4, ''d'')], [(5, ''e'')]] \<and>
   int (length (batchIterator 2 five)) = \<lceil>real (length (entries five)) / real_of_int 2\<rceil>"
proof -
  have inv: "rs_inv five" by (simp add: rs_inv_def five_def)
  have n: "(1::int) \<le> 2" by simp
  have ev: "map entries (batchIterator 2 five) =
     [[(1, ''a''), (2, ''b'')], [(3, ''c''), (4, ''d'')], [(5, ''e'')]]"
    by (simp add: batchIterator_def five_def new_RecordSet_def copyScopes_def Let_def)
  from batchIterator_batches [OF inv n] inv ev show ?thesis by simp
qed

section \<open>merge and append\<close>

lemma merge_entries_char:
  assumes "distinct (map fst es)"
  shows "merge_entries res es =
    (if set (map fst res) \<inter> set (map fst es) = {} then Inr (res @ es)
     else Inl DuplicationError)"
  using assms
proof (induction es arbitrary: res)
  case Nil
  then show ?case by simp
next
  case (Cons e es)
  show ?case
  proof (cases "fst e \<in> set (map fst res)")
    case True
    then show ?thesis by (auto simp: map_has_iff)
  next
    case False
    have d: "distinct (map fst es)" and ne: "fst e \<notin> set (map fst es)"
      using Cons.prems by auto
    have "merge_entries res (e # es) = merge_entries (res @ [e]) es"
      using False by (simp add: map_has_iff map_set_new)
    also have "\<dots> = (if set (map fst (res @ [e])) \<inter> set (map fst es) = {}
        then Inr ((res @ [e]) @ es) else Inl DuplicationError)"
      by (rule Cons.IH [OF d])
    also have "set (map fst (res @ [e])) \<inter> set (map fst es) = {}
        \<longleftrightarrow> set (map fst res) \<inter> set (map fst (e # es)) = {}"
      using False ne by auto
    finally show ?thesis by simp
  qed
qed

lemma merge_sets_char:
  assumes "distinct (map fst res)" and "\<forall>T \<in> set Ts. distinct (keys T)"
  shows "merge_sets res Ts =
    (if distinct (map fst res @ concat (map keys Ts))
     then Inr (res @ concat (map entries Ts)) else Inl DuplicationError)"
  using assms
proof (induction Ts arbitrary: res)
  case Nil
  then show ?case by simp
next
  case (Cons T Ts)
  have dT: "distinct (map fst (entries T))" using Cons.prems(2) by (simp add: keys_def)
  show ?case
  proof (cases "set (map fst res) \<inter> set (map fst (entries T)) = {}")
    case True
    have d: "distinct (map fst (res @ entries T))"
      using True Cons.prems(1) dT by auto
    have e1: "merge_sets res (T # Ts) = merge_sets (res @ entries T) Ts"
      using True by (simp add: merge_entries_char [OF dT])
    have e2: "merge_sets (res @ entries T) Ts =
        (if distinct (map fst (res @ entries T) @ concat (map keys Ts))
         then Inr ((res @ entries T) @ concat (map entries Ts)) else Inl DuplicationError)"
      using Cons.prems(2) by (intro Cons.IH [OF d]) simp
    have e3: "map fst (res @ entries T) @ concat (map keys Ts)
        = map fst res @ concat (map keys (T # Ts))"
      by (simp add: keys_def)
    have e4: "(res @ entries T) @ concat (map entries Ts) = res @ concat (map entries (T # Ts))"
      by simp
    show ?thesis by (simp only: e1 e2 e3 e4)
  next
    case False
    then have "merge_sets res (T # Ts) = Inl DuplicationError"
      by (simp add: merge_entries_char [OF dT])
    moreover have "\<not> distinct (map fst res @ concat (map keys (T # Ts)))"
      using False by (auto simp: keys_def)
    ultimately show ?thesis by simp
  qed
qed

lemma merge_char:
  assumes "\<forall>T \<in> set (S # Ts). rs_inv T"
  shows "merge Ts S =
    (if distinct (concat (map keys (S # Ts)))
     then Inr (new_RecordSet (concat (map entries (S # Ts))) (Some S))
     else Inl DuplicationError)"
proof -
  have dS: "distinct (map fst (entries S))" using assms by (simp add: rs_inv_def)
  have dT: "\<forall>T \<in> set Ts. distinct (keys T)" using assms by (simp add: rs_inv_def keys_def)
  show ?thesis
    by (simp add: merge_def new_Map_distinct [OF dS] merge_sets_char [OF dS dT] keys_def)
qed

lemma map_of_map_set_at:
  "map_of (map_set k v es) x = (if x = k then Some v else map_of es x)"
  by (induction es) auto

lemma map_of_insert_all: "map_of (insert_all m es) = map_of m ++ map_of (rev es)"
proof (induction es arbitrary: m)
  case Nil
  then show ?case by simp
next
  case (Cons e es)
  show ?case
  proof
    fix x
    show "map_of (insert_all m (e # es)) x = (map_of m ++ map_of (rev (e # es))) x"
      by (cases e)
        (auto simp: Cons.IH map_of_map_set_at map_add_def split: option.splits)
  qed
qed

lemma append_loop_entries:
  "entries (append_loop rid res rs) = insert_all (entries res) (map (\<lambda>r. (rid r, r)) rs)"
  by (induction rs arbitrary: res) (simp_all add: set_priv_def)

lemma append_loop_scopes: "scopes (append_loop rid res rs) = scopes res"
  by (induction rs arbitrary: res) (simp_all add: set_priv_def)

lemma append_loop_accessors: "accessors (append_loop rid res rs) = accessors res"
  by (induction rs arbitrary: res) (simp_all add: set_priv_def)

lemma append_rs_entries:
  "distinct (map fst (entries S)) \<Longrightarrow>
   entries (append_rs rid rs S) = insert_all (entries S) (map (\<lambda>r. (rid r, r)) rs)"
  by (simp add: append_rs_def append_loop_entries new_RecordSet_entries_distinct)

lemma append_rs_inv: "rs_inv S \<Longrightarrow> rs_inv (append_rs rid rs S)"
  by (simp add: rs_inv_def append_rs_def append_loop_entries append_loop_scopes
      append_loop_accessors new_RecordSet_entries_distinct new_RecordSet_scopes
      new_RecordSet_accessors insert_all_distinct_acc)

lemma append_last_wins:
  assumes "distinct (map fst (entries S))" and "\<forall>y \<in> set ys. rid y \<noteq> rid r"
  shows "map_get (rid r) (entries (append_rs rid (xs @ r # ys) S)) = Some r"
proof -
  have "map_of (rev (map (\<lambda>r. (rid r, r)) ys)) (rid r) = None"
    using assms(2) by (auto simp: map_of_eq_None_iff rev_map [symmetric])
  then show ?thesis
    by (simp add: map_get_map_of append_rs_entries [OF assms(1)] map_of_insert_all
        map_add_def rev_map [symmetric] split: option.splits) 
qed

lemma new_RecordSet_obj_fails:
  "new_RecordSet_obj it src st = (Inl err, st') \<Longrightarrow> st' = st"
  by (auto simp: new_RecordSet_obj_def alloc_def split: option.splits)

lemma new_RecordSet_obj_made:
  assumes "lookup a st = Some this"
  shows "new_RecordSet_obj it (Some a) st
    = (Inr (length (sets st)), st\<lparr>sets := sets st @ [new_RecordSet it (Some this)]\<rparr>)"
  using assms by (simp add: new_RecordSet_obj_def alloc_def)

lemma derive_failure_leaves_store:
  assumes "derive fid operation s st = (Inl err, st')"
  shows "st' = st"
proof (cases "lookup s st")
  case None
  with assms show ?thesis
    by (cases operation)
      (simp_all add: derive_def filter_obj_def sort_obj_def duplicate_obj_def merge_obj_def
        append_obj_def only_obj_def except_obj_def slice_obj_def limit_obj_def offset_obj_def)
next
  case (Some this)
  note made = new_RecordSet_obj_made [OF Some]
  show ?thesis
  proof (cases operation)
    case (Merge others)
    with assms Some show ?thesis
      by (auto simp: derive_def merge_obj_def made split: option.splits sum.splits)
  qed (use assms Some made in
      \<open>simp_all add: derive_def filter_obj_def sort_obj_def duplicate_obj_def append_obj_def
         only_obj_def except_obj_def slice_obj_def limit_obj_def offset_obj_def Let_def\<close>)
qed

text \<open>
  C1. For RecordSets \<open>S\<close> and \<open>T\<close> with disjoint keys, \<open>S.merge(T)\<close> succeeds and has
  \<open>|S| + |T|\<close> entries, those of \<open>S\<close> followed by those of \<open>T\<close>. For any number of
  arguments, \<open>merge\<close> succeeds when no key occurs twice among \<open>S\<close> and the arguments, and
  otherwise its outcome is the duplication error and nothing else: no set is returned, and
  the store of RecordSets is what it was, since \<open>merge\<close> writes only to a Map of its own.
  \<open>S.append\<close> never fails, and of the records given under one key the last one is the value
  of that key.
\<close>

theorem merge_throws_append_overwrites:
  assumes "rs_inv S" and "rs_inv T" and "\<forall>U \<in> set Ts. rs_inv U"
  shows
    "(set (keys S) \<inter> set (keys T) = {} \<longrightarrow>
        (\<exists>D. merge [T] S = Inr D \<and> entries D = entries S @ entries T \<and>
             length (entries D) = length (entries S) + length (entries T) \<and>
             scopes D = scopes S)) \<and>
     (distinct (concat (map keys (S # Ts))) \<longrightarrow>
        (\<exists>D. merge Ts S = Inr D \<and> entries D = concat (map entries (S # Ts)))) \<and>
     (\<not> distinct (concat (map keys (S # Ts))) \<longrightarrow> merge Ts S = Inl DuplicationError) \<and>
     (\<forall>others a st err st'.
        derive fid (Merge others) a (st :: ('k, 'r, 'f) store) = (Inl err, st') \<longrightarrow> st' = st) \<and>
     (\<forall>xs r ys. (\<forall>y \<in> set ys. rid y \<noteq> rid r) \<longrightarrow>
        map_get (rid r) (entries (append_rs rid (xs @ r # ys) S)) = Some r)"
proof -
  have dS: "distinct (map fst (entries S))" and sS: "distinct (map fst (scopes S))"
    using assms(1) by (simp_all add: rs_inv_def)
  have dT: "distinct (map fst (entries T))" using assms(2) by (simp add: rs_inv_def)
  have two: "\<forall>U \<in> set (S # [T]). rs_inv U" using assms(1,2) by simp
  have many: "\<forall>U \<in> set (S # Ts). rs_inv U" using assms(1,3) by simp
  have c1: "set (keys S) \<inter> set (keys T) = {} \<longrightarrow>
        (\<exists>D. merge [T] S = Inr D \<and> entries D = entries S @ entries T \<and>
             length (entries D) = length (entries S) + length (entries T) \<and>
             scopes D = scopes S)"
  proof
    assume disj: "set (keys S) \<inter> set (keys T) = {}"
    then have d: "distinct (map fst (entries S @ entries T))"
      using dS dT by (simp add: keys_def)
    then have "merge [T] S = Inr (new_RecordSet (entries S @ entries T) (Some S))"
      using disj dS dT by (simp add: merge_char [OF two] keys_def)
    moreover have "entries (new_RecordSet (entries S @ entries T) (Some S)) = entries S @ entries T"
      by (rule new_RecordSet_entries_distinct [OF d])
    ultimately show "\<exists>D. merge [T] S = Inr D \<and> entries D = entries S @ entries T \<and>
             length (entries D) = length (entries S) + length (entries T) \<and>
             scopes D = scopes S"
      by (simp add: new_RecordSet_scopes [OF sS])
  qed
  have c2: "distinct (concat (map keys (S # Ts))) \<longrightarrow>
        (\<exists>D. merge Ts S = Inr D \<and> entries D = concat (map entries (S # Ts)))"
  proof
    assume d: "distinct (concat (map keys (S # Ts)))"
    have "map fst (concat (map entries Us)) = concat (map keys Us)" for Us :: "('a, 'b) recordset list"
      by (induction Us) (simp_all add: keys_def)
    then have "map fst (concat (map entries (S # Ts))) = concat (map keys (S # Ts))" .
    with d have "distinct (map fst (concat (map entries (S # Ts))))" by simp
    then have "entries (new_RecordSet (concat (map entries (S # Ts))) (Some S))
        = concat (map entries (S # Ts))"
      by (rule new_RecordSet_entries_distinct)
    then show "\<exists>D. merge Ts S = Inr D \<and> entries D = concat (map entries (S # Ts))"
      using d by (simp only: merge_char [OF many] if_True) simp
  qed
  have c3: "\<not> distinct (concat (map keys (S # Ts))) \<longrightarrow> merge Ts S = Inl DuplicationError"
    by (simp only: merge_char [OF many]) simp
  have c4: "\<forall>xs r ys. (\<forall>y \<in> set ys. rid y \<noteq> rid r) \<longrightarrow>
        map_get (rid r) (entries (append_rs rid (xs @ r # ys) S)) = Some r"
    using append_last_wins [OF dS] by blast
  have c5: "\<forall>others a st err st'.
        derive fid (Merge others) a (st :: ('k, 'r, 'f) store) = (Inl err, st') \<longrightarrow> st' = st"
    using derive_failure_leaves_store by blast
  show ?thesis by (intro conjI) (rule c1 c2 c3 c5 c4)+
qed

theorem merge_throws_append_overwrites_witness:
  "rs_inv ab \<and> rs_inv cd \<and> rs_inv bz \<and>
   set (keys ab) \<inter> set (keys cd) = {} \<and>
   (\<exists>D. merge [cd] ab = Inr D \<and> entries D = entries ab @ entries cd \<and>
        length (entries D) = length (entries ab) + length (entries cd) \<and>
        scopes D = scopes ab) \<and>
   length (entries ab) + length (entries cd) = 4 \<and>
   \<not> distinct (concat (map keys [ab, cd, bz])) \<and>
   merge [cd, bz] ab = Inl DuplicationError \<and>
   map_get 2 (entries (append_rs fst [(2, ''y''), (2, ''z'')] ab)) = Some (2, ''z'')"
proof -
  have i1: "rs_inv ab" and i2: "rs_inv cd" and i3: "rs_inv bz"
    by (simp_all add: rs_inv_def ab_def cd_def bz_def)
  have i4: "\<forall>U \<in> set [cd, bz]. rs_inv U" using i2 i3 by simp
  have disj: "set (keys ab) \<inter> set (keys cd) = {}" by (simp add: keys_def ab_def cd_def)
  have dup: "\<not> distinct (concat (map keys [ab, cd, bz]))"
    by (simp add: keys_def ab_def cd_def bz_def)
  have len: "length (entries ab) + length (entries cd) = 4" by (simp add: ab_def cd_def)
  note inst = merge_throws_append_overwrites [OF i1 i2 i4, of "\<lambda>f::nat. f" fst]
  note two = inst [THEN conjunct1, rule_format, OF disj]
  note thrown = inst [THEN conjunct2, THEN conjunct2, THEN conjunct1, rule_format, OF dup]
  note last_wins = inst [THEN conjunct2, THEN conjunct2, THEN conjunct2, THEN conjunct2,
      rule_format, of "[]" "(2::nat, ''z'')" "[(2, ''y'')]"]
  have app: "map_get 2 (entries (append_rs fst [(2, ''y''), (2, ''z'')] ab)) = Some (2, ''z'')"
    using last_wins by simp
  show ?thesis by (intro conjI) (rule i1 i2 i3 disj two len dup thrown app)+
qed

section \<open>Array.prototype.sort as modelled\<close>

lemma consistent_flip:
  assumes "consistent_comparator c A" "a \<in> A" "b \<in> A"
  shows "c a b > 0 \<longleftrightarrow> c b a < 0"
proof
  assume gt: "c a b > 0"
  show "c b a < 0"
  proof (rule ccontr)
    assume "\<not> c b a < 0"
    then consider "c b a = 0" | "c b a > 0" by linarith
    then show False
    proof cases
      case 1
      then have "c a b = 0" using assms unfolding consistent_comparator_def by blast
      with gt show False by simp
    next
      case 2
      with gt have "c a a > 0" using assms unfolding consistent_comparator_def by blast
      moreover have "c a a = 0" using assms unfolding consistent_comparator_def by blast
      ultimately show False by simp
    qed
  qed
next
  assume lt: "c b a < 0"
  show "c a b > 0"
  proof (rule ccontr)
    assume "\<not> c a b > 0"
    then consider "c a b = 0" | "c a b < 0" by linarith
    then show False
    proof cases
      case 1
      then have "c b a = 0" using assms unfolding consistent_comparator_def by blast
      with lt show False by simp
    next
      case 2
      with lt have "c b b < 0" using assms unfolding consistent_comparator_def by blast
      moreover have "c b b = 0" using assms unfolding consistent_comparator_def by blast
      ultimately show False by simp
    qed
  qed
qed

lemma consistent_sym:
  assumes "consistent_comparator c A" "a \<in> A" "b \<in> A"
  shows "c a b = 0 \<longleftrightarrow> c b a = 0"
  using assms unfolding consistent_comparator_def by blast

lemma consistent_eq_trans:
  assumes "consistent_comparator c A" "a \<in> A" "b \<in> A" "d \<in> A" "c a b = 0" "c b d = 0"
  shows "c a d = 0"
  using assms unfolding consistent_comparator_def by blast

lemma consistent_lt_trans:
  assumes "consistent_comparator c A" "a \<in> A" "b \<in> A" "d \<in> A" "c a b < 0" "c b d < 0"
  shows "c a d < 0"
  using assms unfolding consistent_comparator_def by blast

lemma consistent_le_trans:
  assumes cc: "consistent_comparator c A" and A: "a \<in> A" "b \<in> A" "d \<in> A"
    and ab: "c a b \<le> 0" and bd: "c b d \<le> 0"
  shows "c a d \<le> 0"
proof (rule ccontr)
  assume "\<not> c a d \<le> 0"
  then have ad: "c a d > 0" by simp
  then have da: "c d a < 0" using consistent_flip [OF cc A(1) A(3)] by simp
  consider "c a b = 0" "c b d = 0" | "c a b < 0" "c b d < 0" | "c a b = 0" "c b d < 0"
    | "c a b < 0" "c b d = 0"
    using ab bd by linarith
  then show False
  proof cases
    case 1
    then have "c a d = 0" using consistent_eq_trans [OF cc A] by simp
    with ad show False by simp
  next
    case 2
    then have "c a d < 0" using consistent_lt_trans [OF cc A] by simp
    with ad show False by simp
  next
    case 3
    have "c b a < 0" using consistent_lt_trans [OF cc A(2) A(3) A(1) 3(2) da] .
    moreover have "c b a = 0" using 3(1) consistent_sym [OF cc A(1) A(2)] by simp
    ultimately show False by simp
  next
    case 4
    have "c d b < 0" using consistent_lt_trans [OF cc A(3) A(1) A(2) da 4(1)] .
    moreover have "c d b = 0" using 4(2) consistent_sym [OF cc A(2) A(3)] by simp
    ultimately show False by simp
  qed
qed

lemma consistent_gt_trans:
  assumes "consistent_comparator c A" "a \<in> A" "b \<in> A" "d \<in> A" "c a b > 0" "c b d > 0"
  shows "c a d > 0"
  using assms unfolding consistent_comparator_def by blast

lemma consistent_refl: "consistent_comparator c A \<Longrightarrow> a \<in> A \<Longrightarrow> c a a = 0"
  unfolding consistent_comparator_def by blast

lemma consistent_subset:
  assumes cc: "consistent_comparator c A" and sub: "B \<subseteq> A"
  shows "consistent_comparator c B"
  unfolding consistent_comparator_def
proof (intro conjI ballI impI)
  fix a assume "a \<in> B"
  then show "c a a = 0" using consistent_refl [OF cc] sub by blast
next
  fix a b assume "a \<in> B" "b \<in> B" "c a b = 0"
  then show "c b a = 0" using consistent_sym [OF cc, of a b] sub by blast
next
  fix a b d assume "a \<in> B" "b \<in> B" "d \<in> B" "c a b = 0" "c b d = 0"
  then show "c a d = 0" using consistent_eq_trans [OF cc, of a b d] sub by blast
next
  fix a b d assume "a \<in> B" "b \<in> B" "d \<in> B" "c a b < 0" "c b d < 0"
  then show "c a d < 0" using consistent_lt_trans [OF cc, of a b d] sub by blast
next
  fix a b d assume "a \<in> B" "b \<in> B" "d \<in> B" "0 < c a b" "0 < c b d"
  then show "0 < c a d" using consistent_gt_trans [OF cc, of a b d] sub by blast
qed

lemma mset_js_insort: "mset (js_insort c x ys) = add_mset x (mset ys)"
  by (induction ys) auto

lemma mset_js_sort: "mset (js_sort c xs) = mset xs"
  by (induction xs) (auto simp: mset_js_insort)

lemma set_js_sort: "set (js_sort c xs) = set xs"
  using mset_js_sort [of c xs] by (metis set_mset_mset)

lemma set_js_insort: "set (js_insort c x ys) = insert x (set ys)"
  using mset_js_insort [of c x ys] by (metis set_mset_mset set_mset_add_mset_insert)

lemma length_js_sort: "length (js_sort c xs) = length xs"
  using mset_js_sort [of c xs] by (metis size_mset)

lemma distinct_keys_js_sort:
  "distinct (map fst (js_sort c xs)) \<longleftrightarrow> distinct (map fst xs)"
proof -
  have "mset (map fst (js_sort c xs)) = image_mset fst (mset (js_sort c xs))" by simp
  also have "\<dots> = image_mset fst (mset xs)" by (simp only: mset_js_sort)
  also have "\<dots> = mset (map fst xs)" by simp
  finally show ?thesis by (rule mset_eq_imp_distinct_iff)
qed

lemma sorted_js_insort:
  assumes "consistent_comparator c (insert x (set ys))"
    and "sorted_wrt (\<lambda>a b. c a b \<le> 0) ys"
  shows "sorted_wrt (\<lambda>a b. c a b \<le> 0) (js_insort c x ys)"
  using assms
proof (induction ys)
  case Nil
  then show ?case by simp
next
  case (Cons y ys)
  let ?A = "insert x (set (y # ys))"
  note cc = Cons.prems(1)
  show ?case
  proof (cases "c x y \<le> 0")
    case True
    have "c x z \<le> 0" if "z \<in> set ys" for z
    proof -
      have "c y z \<le> 0" using Cons.prems(2) that by simp
      then show ?thesis
        using consistent_le_trans [OF cc _ _ _ True, of z] that by simp
    qed
    then show ?thesis using True Cons.prems(2) by auto
  next
    case False
    then have yx: "c y x \<le> 0" using consistent_flip [OF cc, of x y] by simp
    have sub: "consistent_comparator c (insert x (set ys))"
      using cc by (rule consistent_subset) auto
    have ih: "sorted_wrt (\<lambda>a b. c a b \<le> 0) (js_insort c x ys)"
      using Cons.IH [OF sub] Cons.prems(2) by simp
    have "c y z \<le> 0" if "z \<in> set (js_insort c x ys)" for z
      using that yx Cons.prems(2) by (auto simp: set_js_insort)
    then show ?thesis using False ih by simp
  qed
qed

lemma sorted_js_sort:
  "consistent_comparator c (set xs) \<Longrightarrow> sorted_wrt (\<lambda>a b. c a b \<le> 0) (js_sort c xs)"
proof (induction xs)
  case Nil
  then show ?case by simp
next
  case (Cons x xs)
  have "consistent_comparator c (set xs)"
    using Cons.prems by (rule consistent_subset) auto
  then have "sorted_wrt (\<lambda>a b. c a b \<le> 0) (js_sort c xs)" by (rule Cons.IH)
  moreover have "consistent_comparator c (insert x (set (js_sort c xs)))"
    using Cons.prems by (simp add: set_js_sort)
  ultimately show ?case by (simp add: sorted_js_insort)
qed

lemma filter_js_insort:
  assumes "consistent_comparator c A" and "x \<in> A" and "a \<in> A" and "set ys \<subseteq> A"
  shows "filter (\<lambda>y. c x y = 0) (js_insort c a ys)
    = (if c x a = 0 then a # filter (\<lambda>y. c x y = 0) ys else filter (\<lambda>y. c x y = 0) ys)"
  using assms(4)
proof (induction ys)
  case Nil
  then show ?case by simp
next
  case (Cons y ys)
  have yA: "y \<in> A" and sub: "set ys \<subseteq> A" using Cons.prems by auto
  show ?case
  proof (cases "c a y \<le> 0")
    case True
    then show ?thesis by simp
  next
    case False
    have "\<not> (c x a = 0 \<and> c x y = 0)"
    proof
      assume both: "c x a = 0 \<and> c x y = 0"
      then have "c a x = 0" using consistent_sym [OF assms(1) assms(2) assms(3)] by simp
      then have "c a y = 0"
        using both consistent_eq_trans [OF assms(1) assms(3) assms(2) yA] by simp
      with False show False by simp
    qed
    then show ?thesis using False Cons.IH [OF sub] by auto
  qed
qed

lemma js_sort_stable:
  assumes "consistent_comparator c A" and "x \<in> A" and "set xs \<subseteq> A"
  shows "filter (\<lambda>y. c x y = 0) (js_sort c xs) = filter (\<lambda>y. c x y = 0) xs"
  using assms(3)
proof (induction xs)
  case Nil
  then show ?case by simp
next
  case (Cons a xs)
  have "set (js_sort c xs) \<subseteq> A" using Cons.prems by (simp add: set_js_sort)
  then show ?case
    using Cons filter_js_insort [OF assms(1) assms(2), of a "js_sort c xs"] by simp
qed

lemma occurs_before_filter:
  assumes "occurs_before x y xs" and "P x" and "P y"
  shows "occurs_before x y (filter P xs)"
proof -
  from assms(1) obtain as bs cs where "xs = as @ x # bs @ y # cs"
    by (auto simp: occurs_before_def)
  then have "filter P xs = filter P as @ x # filter P bs @ y # filter P cs"
    using assms(2,3) by simp
  then show ?thesis unfolding occurs_before_def by blast
qed

lemma filter_eq_append_split:
  "filter P xs = as @ bs \<Longrightarrow> \<exists>us vs. xs = us @ vs \<and> filter P us = as \<and> filter P vs = bs"
proof (induction xs arbitrary: as)
  case Nil
  then show ?case by simp
next
  case (Cons z zs)
  show ?case
  proof (cases "P z")
    case False
    with Cons.prems have "filter P zs = as @ bs" by simp
    from Cons.IH [OF this] obtain us vs
      where "zs = us @ vs" "filter P us = as" "filter P vs = bs" by blast
    with False have "z # zs = (z # us) @ vs \<and> filter P (z # us) = as \<and> filter P vs = bs"
      by simp
    then show ?thesis by blast
  next
    case True
    show ?thesis
    proof (cases as)
      case Nil
      with Cons.prems have "z # zs = [] @ (z # zs) \<and> filter P [] = as \<and> filter P (z # zs) = bs"
        by simp
      then show ?thesis by blast
    next
      case (Cons a as')
      with True Cons.prems have az: "a = z" and "filter P zs = as' @ bs" by simp_all
      from Cons.IH [OF this(2)] obtain us vs
        where "zs = us @ vs" "filter P us = as'" "filter P vs = bs" by blast
      with True az Cons
      have "z # zs = (z # us) @ vs \<and> filter P (z # us) = as \<and> filter P vs = bs"
        by simp
      then show ?thesis by blast
    qed
  qed
qed

lemma filter_occurs_before:
  assumes "occurs_before x y (filter P xs)"
  shows "occurs_before x y xs"
proof -
  from assms obtain as bs cs where eq: "filter P xs = as @ x # bs @ y # cs"
    by (auto simp: occurs_before_def)
  then obtain us vs where 1: "xs = us @ vs" "filter P us = as" "filter P vs = x # bs @ y # cs"
    using filter_eq_append_split [of P xs as "x # bs @ y # cs"] by blast
  from 1(3) obtain us' vs' where 2: "vs = us' @ x # vs'" "filter P vs' = bs @ y # cs"
    by (auto simp: filter_eq_Cons_iff)
  from 2(2) obtain us2 vs2 where 3: "vs' = us2 @ vs2" "filter P vs2 = y # cs"
    using filter_eq_append_split [of P vs' bs "y # cs"] by blast
  from 3(2) obtain us3 vs3 where 4: "vs2 = us3 @ y # vs3"
    by (auto simp: filter_eq_Cons_iff)
  have "xs = (us @ us') @ x # (us2 @ us3) @ y # vs3"
    using 1(1) 2(1) 3(1) 4 by simp
  then show ?thesis unfolding occurs_before_def by blast
qed

lemma js_sort_keeps_order_of_equals:
  assumes cc: "consistent_comparator c (set xs)"
    and b: "occurs_before x y xs" and eq: "c x y = 0"
  shows "occurs_before x y (js_sort c xs)"
proof -
  have x: "x \<in> set xs" and y: "y \<in> set xs"
    using b by (auto simp: occurs_before_def)
  have xx: "c x x = 0" using cc x unfolding consistent_comparator_def by blast
  have "occurs_before x y (filter (\<lambda>z. c x z = 0) xs)"
    using b xx eq by (rule occurs_before_filter)
  then have "occurs_before x y (filter (\<lambda>z. c x z = 0) (js_sort c xs))"
    using js_sort_stable [OF cc x subset_refl] by simp
  then show ?thesis by (rule filter_occurs_before)
qed

lemma consistent_difference: "consistent_comparator (\<lambda>a b. f a - f b) A" for f :: "'a \<Rightarrow> int"
  unfolding consistent_comparator_def by auto

lemma sort_rs_entries:
  "distinct (map fst (entries S)) \<Longrightarrow>
   entries (sort_rs cmp S) = js_sort (entry_cmp cmp) (entries S)"
  by (simp add: sort_rs_def Let_def new_RecordSet_entries_distinct distinct_keys_js_sort)

section \<open>sort\<close>

text \<open>
  C6. For a RecordSet \<open>S\<close> and a comparator that is consistent on its entries, \<open>S.sort(cmp)\<close>
  holds the entries of \<open>S\<close>, each once, in the order of \<open>cmp\<close>, under the scopes of \<open>S\<close>; and
  two entries that compare equal stand in the result in the order they have in \<open>S\<close>.
\<close>

theorem sort_rs_stable:
  assumes "rs_inv S" and "consistent_comparator (entry_cmp cmp) (set (entries S))"
  shows "sorted_wrt (\<lambda>a b. entry_cmp cmp a b \<le> 0) (entries (sort_rs cmp S)) \<and>
    mset (entries (sort_rs cmp S)) = mset (entries S) \<and>
    scopes (sort_rs cmp S) = scopes S \<and>
    (\<forall>x y. occurs_before x y (entries S) \<and> entry_cmp cmp x y = 0 \<longrightarrow>
       occurs_before x y (entries (sort_rs cmp S)))"
proof -
  have d: "distinct (map fst (entries S))" and sd: "distinct (map fst (scopes S))"
    using assms(1) by (simp_all add: rs_inv_def)
  note ents = sort_rs_entries [OF d, of cmp]
  have "sorted_wrt (\<lambda>a b. entry_cmp cmp a b \<le> 0) (entries (sort_rs cmp S))"
    unfolding ents by (rule sorted_js_sort [OF assms(2)])
  moreover have "mset (entries (sort_rs cmp S)) = mset (entries S)"
    unfolding ents by (rule mset_js_sort)
  moreover have "scopes (sort_rs cmp S) = scopes S"
    by (simp add: sort_rs_def Let_def new_RecordSet_scopes [OF sd])
  moreover have "\<forall>x y. occurs_before x y (entries S) \<and> entry_cmp cmp x y = 0 \<longrightarrow>
       occurs_before x y (entries (sort_rs cmp S))"
    unfolding ents using js_sort_keeps_order_of_equals [OF assms(2)] by blast
  ultimately show ?thesis by blast
qed

theorem sort_rs_stable_witness:
  "rs_inv people \<and> consistent_comparator (entry_cmp by_age) (set (entries people)) \<and>
   entries (sort_rs by_age people)
     = [(2, (20, ''b'')), (4, (20, ''d'')), (1, (30, ''a'')), (3, (40, ''c''))] \<and>
   occurs_before (2, (20, ''b'')) (4, (20, ''d'')) (entries people) \<and>
   entry_cmp by_age (2, (20, ''b'')) (4, (20, ''d'')) = 0 \<and>
   occurs_before (2, (20, ''b'')) (4, (20, ''d'')) (entries (sort_rs by_age people))"
proof -
  have inv: "rs_inv people" by (simp add: rs_inv_def people_def)
  have "entry_cmp by_age = (\<lambda>a b. int (fst (snd a)) - int (fst (snd b)))"
    by (simp add: entry_cmp_def by_age_def fun_eq_iff)
  then have cc: "consistent_comparator (entry_cmp by_age) (set (entries people))"
    by (simp only: consistent_difference)
  have ev: "entries (sort_rs by_age people)
     = [(2, (20, ''b'')), (4, (20, ''d'')), (1, (30, ''a'')), (3, (40, ''c''))]"
    by (simp add: sort_rs_def people_def new_RecordSet_def copyScopes_def Let_def
        entry_cmp_def by_age_def)
  have "entries people = [(1, (30, ''a''))] @ (2, (20, ''b'')) # [(3, (40, ''c''))] @ (4, (20, ''d'')) # []"
    by (simp add: people_def)
  then have before: "occurs_before (2, (20, ''b'')) (4, (20, ''d'')) (entries people)"
    unfolding occurs_before_def by blast
  have eq: "entry_cmp by_age (2, (20, ''b'')) (4, (20, ''d'')) = 0"
    by (simp add: entry_cmp_def by_age_def)
  from sort_rs_stable [OF inv cc] before eq
  have "occurs_before (2, (20, ''b'')) (4, (20, ''d'')) (entries (sort_rs by_age people))"
    by blast
  with inv cc ev before eq show ?thesis by simp
qed

section \<open>filter and the scopes of a derived set\<close>

lemma filter_loop_entries:
  "entries (filter_loop f es0 newMap es)
     = insert_all (entries newMap) (filter (\<lambda>e. f (snd e) (fst e) es0) es)"
  by (induction es arbitrary: newMap) (simp_all add: set_priv_def)

lemma filter_loop_scopes: "scopes (filter_loop f es0 newMap es) = scopes newMap"
  by (induction es arbitrary: newMap) (simp_all add: set_priv_def)

lemma filter_loop_accessors: "accessors (filter_loop f es0 newMap es) = accessors newMap"
  by (induction es arbitrary: newMap) (simp_all add: set_priv_def)

lemma filter_rs_entries:
  assumes "distinct (map fst (entries S))"
  shows "entries (filter_rs f S) = filter (\<lambda>e. f (snd e) (fst e) (entries S)) (entries S)"
proof -
  have "distinct (map fst (filter (\<lambda>e. f (snd e) (fst e) (entries S)) (entries S)))"
    using assms by (rule distinct_map_filter)
  then show ?thesis
    by (simp add: filter_rs_def filter_loop_entries new_RecordSet_entries insert_all_distinct)
qed

lemma filter_rs_scopes:
  "distinct (map fst (scopes S)) \<Longrightarrow> scopes (filter_rs f S) = scopes S"
  by (simp add: filter_rs_def filter_loop_scopes new_RecordSet_scopes)

lemma filter_rs_inv: "rs_inv S \<Longrightarrow> rs_inv (filter_rs f S)"
  by (simp add: rs_inv_def filter_rs_def filter_loop_entries filter_loop_scopes
      filter_loop_accessors new_RecordSet_entries new_RecordSet_scopes new_RecordSet_accessors
      insert_all_distinct_acc)

lemma scopedWhere_result:
  assumes "rs_inv D" and "map_get name (scopes D) = Some (m, c)"
  shows "\<exists>R. scopedWhere name D = Inr R \<and> scopes R = scopes D \<and>
    entries R = (case c of
        None \<Rightarrow> filter (\<lambda>e. m (snd e) (fst e) (entries D)) (entries D)
      | Some cmp \<Rightarrow> js_sort (entry_cmp cmp) (filter (\<lambda>e. m (snd e) (fst e) (entries D)) (entries D)))"
proof -
  let ?ms = "filter (\<lambda>e. m (snd e) (fst e) (entries D)) (entries D)"
  have d: "distinct (map fst ?ms)" and sd: "distinct (map fst (scopes D))"
    using assms(1) by (simp_all add: rs_inv_def distinct_map_filter)
  show ?thesis
  proof (cases c)
    case None
    then show ?thesis
      using assms(2) d by (simp add: scopedWhere_def new_RecordSet_entries_distinct new_RecordSet_scopes [OF sd])
  next
    case (Some cmp)
    have "distinct (map fst (js_sort (entry_cmp cmp) ?ms))"
      using d by (simp add: distinct_keys_js_sort)
    then show ?thesis
      using assms(2) Some
      by (simp add: scopedWhere_def new_RecordSet_entries_distinct new_RecordSet_scopes [OF sd])
  qed
qed

text \<open>
  C3. For a RecordSet \<open>S\<close> and a predicate \<open>f\<close>, the entries of \<open>D = S.filter(f)\<close> are those
  entries of \<open>S\<close> for which \<open>f(value, key, S)\<close> is truthy, in the order of \<open>S\<close>; \<open>D\<close> has the
  scope table and the accessors of \<open>S\<close>; and the accessor of a scope on \<open>D\<close> returns the
  entries of \<open>D\<close> for which the matcher, called with \<open>D\<close>, is truthy (in the order of \<open>D\<close>
  when the scope has no comparator).
\<close>

theorem filter_rs_keeps_scopes:
  assumes "rs_inv S"
  shows "entries (filter_rs f S) = filter (\<lambda>e. f (snd e) (fst e) (entries S)) (entries S) \<and>
    scopes (filter_rs f S) = scopes S \<and>
    accessors (filter_rs f S) = accessors S \<and>
    (\<forall>name m c. map_get name (scopes S) = Some (m, c) \<longrightarrow>
       (\<exists>R. scopedWhere name (filter_rs f S) = Inr R \<and>
            set (entries R) = {e \<in> set (entries (filter_rs f S)).
                                 m (snd e) (fst e) (entries (filter_rs f S))} \<and>
            (c = None \<longrightarrow> entries R = filter (\<lambda>e. m (snd e) (fst e) (entries (filter_rs f S)))
                                      (entries (filter_rs f S)))))"
proof -
  let ?D = "filter_rs f S"
  have d: "distinct (map fst (entries S))" and sd: "distinct (map fst (scopes S))"
    using assms by (simp_all add: rs_inv_def)
  have invD: "rs_inv ?D" using assms by (rule filter_rs_inv)
  have sc: "scopes ?D = scopes S" by (rule filter_rs_scopes [OF sd])
  have acc: "accessors ?D = accessors S"
    using assms invD sc by (simp add: rs_inv_def)
  have scoped: "\<exists>R. scopedWhere name ?D = Inr R \<and>
            set (entries R) = {e \<in> set (entries ?D). m (snd e) (fst e) (entries ?D)} \<and>
            (c = None \<longrightarrow> entries R = filter (\<lambda>e. m (snd e) (fst e) (entries ?D)) (entries ?D))"
    if "map_get name (scopes S) = Some (m, c)" for name m c
  proof -
    from that have "map_get name (scopes ?D) = Some (m, c)" by (simp only: sc)
    from scopedWhere_result [OF invD this] obtain R where
      R: "scopedWhere name ?D = Inr R"
      "entries R = (case c of
        None \<Rightarrow> filter (\<lambda>e. m (snd e) (fst e) (entries ?D)) (entries ?D)
      | Some cmp \<Rightarrow> js_sort (entry_cmp cmp) (filter (\<lambda>e. m (snd e) (fst e) (entries ?D)) (entries ?D)))"
      by blast
    have "set (entries R) = {e \<in> set (entries ?D). m (snd e) (fst e) (entries ?D)}"
      unfolding R(2) by (cases c) (auto simp: set_js_sort)
    moreover have "c = None \<longrightarrow> entries R = filter (\<lambda>e. m (snd e) (fst e) (entries ?D)) (entries ?D)"
      unfolding R(2) by simp
    ultimately show ?thesis using R(1) by blast
  qed
  show ?thesis using filter_rs_entries [OF d, of f] sc acc scoped by blast
qed

theorem filter_rs_keeps_scopes_witness:
  "rs_inv people \<and>
   entries (filter_rs (younger_than 35) people)
     = [(1, (30, ''a'')), (2, (20, ''b'')), (4, (20, ''d''))] \<and>
   map_get ''oldest'' (scopes people) = Some (oldest, None) \<and>
   (\<exists>R. scopedWhere ''oldest'' people = Inr R \<and> entries R = [(3, (40, ''c''))]) \<and>
   (\<exists>R. scopedWhere ''oldest'' (filter_rs (younger_than 35) people) = Inr R \<and>
        entries R = [(1, (30, ''a''))])"
proof -
  have inv: "rs_inv people" by (simp add: rs_inv_def people_def)
  have ev: "entries (filter_rs (younger_than 35) people)
     = [(1, (30, ''a'')), (2, (20, ''b'')), (4, (20, ''d''))]"
    using filter_rs_keeps_scopes [OF inv, of "younger_than 35"]
    by (simp add: people_def younger_than_def)
  have sc: "map_get ''oldest'' (scopes people) = Some (oldest, None)"
    by (simp add: people_def)
  have base: "\<exists>R. scopedWhere ''oldest'' people = Inr R \<and> entries R = [(3, (40, ''c''))]"
    by (simp add: scopedWhere_def people_def oldest_def new_RecordSet_def copyScopes_def)
  from filter_rs_keeps_scopes [OF inv, of "younger_than 35"] sc
  obtain R where R: "scopedWhere ''oldest'' (filter_rs (younger_than 35) people) = Inr R"
    "entries R = filter (\<lambda>e. oldest (snd e) (fst e) (entries (filter_rs (younger_than 35) people)))
                                      (entries (filter_rs (younger_than 35) people))"
    by blast
  have "entries R = [(1, (30, ''a''))]"
    unfolding R(2) ev by (simp add: oldest_def)
  with R(1) inv ev sc base show ?thesis by blast
qed

section \<open>groupBy\<close>


lemma map_has_get: "map_has p m \<longleftrightarrow> map_get p m \<noteq> None"
  by (induction m) auto





text \<open>Every \<open>Num\<close> is below \<open>10\<^sup>2\<^sup>1\<close> in absolute value, where JavaScript prints an
  integer in decimal.\<close>

lemma Num_in_decimal_range: "- (10 ^ 21) < sint w \<and> sint w < 10 ^ 21" for w :: "54 word"
proof -
  have "- (2 ^ 53) \<le> sint w" "sint w < 2 ^ 53"
    using sint_ge [of w] sint_lt [of w] by simp_all
  then show ?thesis by simp
qed






section \<open>Relationship: the reverse side\<close>

lemma filterE_loop_never: 
  "filterE_loop (\<lambda>v k es. Inr False) es0 newMap es = Inr newMap"
  by (induction es) simp_all

lemma findE_loop_never: "findE_loop (\<lambda>v k es. Inr False) es0 es = Inr None"
  by (induction es) simp_all

lemma reverse_to_one_finds_nothing:
  assumes "isToOne (rel_type rel)"
  shows "getAssociatedRecordsReverse raw rel record =
    (if isFromOne (rel_type rel) then Inr (OneRecord None)
     else Inr (ManyRecords (new_RecordSet [] (Some (records (rel_from rel))))))"
  using assms
  by (simp add: getAssociatedRecordsReverse_def record_strict_equals_def whereE_def findE_def
      filterE_loop_never findE_loop_never)

lemma filterE_loop_total:
  assumes "\<forall>e \<in> set es. callbackFn (snd e) (fst e) es0 = Inr (f (snd e) (fst e) es0)"
  shows "filterE_loop callbackFn es0 newMap es = Inr (filter_loop f es0 newMap es)"
  using assms by (induction es arbitrary: newMap) simp_all

lemma findE_loop_total:
  assumes "\<forall>e \<in> set es. callbackFn (snd e) (fst e) es0 = Inr (f (snd e) (fst e) es0)"
  shows "findE_loop callbackFn es0 es = Inr (find_loop f es0 es)"
  using assms by (induction es) simp_all

lemma reverse_to_many_scans:
  fixes rel :: "'r relationship"
  assumes many: "\<not> isToOne (rel_type rel)"
    and inv: "rs_inv (records (rel_from rel))"
    and typed: "\<forall>e \<in> set (entries (records (rel_from rel))).
                  key_list_or_empty (raw (snd e) (rel_name rel))"
  shows "getAssociatedRecordsReverse raw rel record =
    (let holder = (\<lambda>v k es. holds_key (raw v (rel_name rel)) (raw record (key_name (rel_to rel))))
     in if isFromOne (rel_type rel)
        then Inr (OneRecord (find_rs holder (records (rel_from rel))))
        else Inr (ManyRecords (filter_rs holder (records (rel_from rel)))))"
proof -
  let ?k = "raw record (key_name (rel_to rel))"
  let ?m = "\<lambda>associatedRecord (k::jsval) (es::(jsval, 'r) entries).
              if raw associatedRecord (rel_name rel) \<in> set [Undefined, Null] then Inr False
              else js_includes (raw associatedRecord (rel_name rel)) ?k"
  let ?h = "\<lambda>v (k::jsval) (es::(jsval, 'r) entries). holds_key (raw v (rel_name rel)) ?k"
  have agree: "\<forall>e \<in> set (entries (records (rel_from rel))).
      ?m (snd e) (fst e) es0 = Inr (?h (snd e) (fst e) es0)" for es0 :: "(jsval, 'r) entries"
  proof
    fix e assume "e \<in> set (entries (records (rel_from rel)))"
    with typed have "key_list_or_empty (raw (snd e) (rel_name rel))" by blast
    then show "?m (snd e) (fst e) es0 = Inr (?h (snd e) (fst e) es0)"
      by (cases "raw (snd e) (rel_name rel)")
        (simp_all add: key_list_or_empty_def holds_key_def js_includes_def Let_def)
  qed
  have w: "whereE ?m (records (rel_from rel)) = Inr (filter_rs ?h (records (rel_from rel)))"
    unfolding whereE_def filter_rs_def by (rule filterE_loop_total [OF agree])
  have f: "findE ?m (records (rel_from rel)) = Inr (find_rs ?h (records (rel_from rel)))"
    unfolding findE_def find_rs_def by (rule findE_loop_total [OF agree])
  show ?thesis
    using many unfolding getAssociatedRecordsReverse_def Let_def
    by (simp only: if_False w f sum.case)
qed

text \<open>
  C5. The reverse side of a to-many relationship returns the records of the from model
  whose list of foreign keys holds the key of the record (\<open>reverse_to_many_scans\<close>). For a
  to-one relationship the matcher compares the Record object with the key, so nothing
  matches (\<open>reverse_to_one_finds_nothing\<close>): post 1 has the author 2, and the posts of
  author 2 are the empty set for many-to-one and \<open>undefined\<close> for one-to-one, while the posts
  of tag 7 are found.
\<close>

theorem reverse_to_one_misses_holder:
  "blog_raw 1 (rel_name (post_author ManyToOne)) = blog_raw 2 (key_name authors) \<and>
   get_rel blog_raw (post_author ManyToOne) ''Author'' ''posts'' 2
     = Inr (ManyRecords \<lparr>entries = [], scopes = [], accessors = []\<rparr>) \<and>
   get_rel blog_raw (post_author OneToOne) ''Author'' ''posts'' 2 = Inr (OneRecord None) \<and>
   get_rel blog_raw post_tags ''Tag'' ''posts'' 7
     = Inr (ManyRecords \<lparr>entries = [(Num 1, 1)], scopes = [], accessors = []\<rparr>)"
proof -
  have fk: "blog_raw 1 (rel_name (post_author ManyToOne)) = blog_raw 2 (key_name authors)"
    by (simp add: blog_raw_def post_author_def authors_def)
  have m1: "get_rel blog_raw (post_author ManyToOne) ''Author'' ''posts'' 2
     = Inr (ManyRecords \<lparr>entries = [], scopes = [], accessors = []\<rparr>)"
    by (simp add: get_rel_def post_author_def posts_def authors_def
        reverse_to_one_finds_nothing isToOne_def isFromOne_def new_RecordSet_def copyScopes_def)
  have o1: "get_rel blog_raw (post_author OneToOne) ''Author'' ''posts'' 2 = Inr (OneRecord None)"
    by (simp add: get_rel_def post_author_def posts_def authors_def
        reverse_to_one_finds_nothing isToOne_def isFromOne_def)
  have mm: "get_rel blog_raw post_tags ''Tag'' ''posts'' 7
     = Inr (ManyRecords \<lparr>entries = [(Num 1, 1)], scopes = [], accessors = []\<rparr>)"
    by (simp add: get_rel_def post_tags_def posts_def tags_def getAssociatedRecordsReverse_def
        isToOne_def isFromOne_def whereE_def blog_raw_def js_includes_def new_RecordSet_def
        copyScopes_def set_priv_def Let_def)
  show ?thesis by (intro conjI) (rule fk m1 o1 mm)+
qed

section \<open>addScope\<close>

lemma addScope_not_callable:
  "addScope name (NotFunction t) sortFn this = Inl TypeError"
  by (simp add: addScope_def validateProperty_def)

lemma addScope_registered:
  "map_has name (scopes this) \<Longrightarrow> addScope name (Function m) sortFn this = Inl DuplicationError"
  by (simp add: addScope_def validateProperty_def)

lemma addScope_comparator_not_callable:
  "\<not> map_has name (scopes this) \<Longrightarrow>
   addScope name (Function m) (NotFunction True) this = Inl TypeError"
  by (simp add: addScope_def validateProperty_def validateFunction_def arg_truthy_def thrown_def)

lemma addScope_member:
  assumes "rs_inv this" and "\<not> map_has name (scopes this)" and "sortFn \<noteq> NotFunction True"
    and "name \<in> set recordset_prototype_names \<union> set map_prototype_names
           \<union> set object_prototype_names"
    and "name = ''size'' \<longrightarrow> entries this \<noteq> []"
    and "''size'' \<notin> set (accessors this)"
  shows "addScope name (Function m) sortFn this = Inl NameError"
proof -
  have acc: "name \<notin> set (accessors this)"
    using assms(1,2) by (simp add: rs_inv_def map_has_iff)
  have ok: "(if arg_truthy sortFn then thrown (validateFunction name sortFn) else None) = None"
    using assms(3) by (cases sortFn) (auto simp: arg_truthy_def thrown_def validateFunction_def)
  have zero: "this_size_is_zero this = Inr (entries this = [])"
    using assms(6) by (simp add: this_size_is_zero_def)
  have getters: "set [''first'', ''last'', ''count'', ''length''] \<subseteq> set recordset_prototype_names"
    by (simp add: recordset_prototype_names_def)
  have "\<exists>t. this_property_truthy name this = Inr t \<and>
      (t \<or> name \<in> set recordset_prototype_names)"
  proof (cases "name \<in> set [''first'', ''last'', ''count'', ''length'']")
    case True
    then have "name \<in> set recordset_prototype_names" using getters by blast
    moreover have "this_property_truthy name this = Inr (entries this \<noteq> [])"
      using acc True by (auto simp: this_property_truthy_def zero)
    ultimately show ?thesis by blast
  next
    case nf: False
    then have nf': "name \<noteq> ''first''" "name \<noteq> ''last''" "name \<notin> set [''count'', ''length'']"
      by auto
    show ?thesis
    proof (cases "name \<in> set recordset_prototype_names")
      case True
      then have "this_property_truthy name this = Inr True"
        using acc nf' by (simp only: this_property_truthy_def if_False if_True)
      then show ?thesis by blast
    next
      case np: False
      show ?thesis
      proof (cases "name = ''size''")
        case True
        then have "this_property_truthy name this = Inr (entries this \<noteq> [])"
          using acc nf' np by (simp only: this_property_truthy_def if_False if_True refl)
        then show ?thesis using assms(5) True by blast
      next
        case False
        then have "this_property_truthy name this =
            Inr (name \<in> set map_prototype_names \<or> name \<in> set object_prototype_names)"
          using acc nf' np by (simp only: this_property_truthy_def if_False if_True)
        then show ?thesis using assms(4) np by blast
      qed
    qed
  qed
  then obtain t where t: "this_property_truthy name this = Inr t"
    "t \<or> name \<in> set recordset_prototype_names" by blast
  have v: "validateProperty name (Function m) (scopes this) = Inr m"
    using assms(2) by (simp add: validateProperty_def)
  show ?thesis
    unfolding addScope_def v ok t(1) using t(2) by simp
qed

text \<open>With a scope named \<open>size\<close> on an empty set, reading \<open>this.last\<close> throws before the name
  is looked at.\<close>

lemma addScope_last_under_size_scope:
  assumes "''size'' \<in> set (accessors this)" and "map_has ''size'' (scopes this)"
    and "\<not> map_has ''last'' (scopes this)" and "''last'' \<notin> set (accessors this)"
    and "entries this = []"
  shows "addScope ''last'' (Function m) (NotFunction False) this = Inl TypeError"
proof -
  from assms(2) obtain sc where "map_get ''size'' (scopes this) = Some sc"
    by (auto simp: map_has_get)
  then have "\<exists>found. scopedWhere ''size'' this = Inr found"
    by (cases sc) (simp add: scopedWhere_def Let_def)
  then have "this_size_is_zero this = Inr False"
    using assms(1) by (auto simp: this_size_is_zero_def)
  then have "this_property_truthy ''last'' this = Inl TypeError"
    using assms(4,5) by (simp add: this_property_truthy_def)
  then show ?thesis
    using assms(3) by (simp add: addScope_def validateProperty_def arg_truthy_def)
qed

lemma addScope_inv:
  assumes "rs_inv this" and "addScope name scope sortFn this = Inr this'"
  shows "rs_inv this' \<and> entries this' = entries this"
proof -
  from assms(2) obtain m where m: "scope = Function m" and new: "\<not> map_has name (scopes this)"
    by (cases scope) (auto simp: addScope_def validateProperty_def split: if_splits)
  from assms(2) m new
  have "this' = this\<lparr>scopes := map_set name (m, stored_comparator sortFn) (scopes this),
                    accessors := accessors this @ [name]\<rparr>"
    by (auto simp: addScope_def validateProperty_def split: option.splits sum.splits if_splits)
  then show ?thesis
    using assms(1) new by (simp add: rs_inv_def map_has_iff map_set_new)
qed

lemma derivation_inv:
  assumes "rs_inv S"
  shows "rs_inv (sort_rs c S)" "rs_inv (duplicate S)" "rs_inv (only ids S)"
    "rs_inv (except ids S)" "rs_inv (slice i j S)" "rs_inv (limit n S)" "rs_inv (offset n S)"
    "merge Ts S = Inr D \<Longrightarrow> rs_inv D"
  using assms
  by (auto simp: sort_rs_def duplicate_def only_def except_def slice_def limit_def offset_def
      merge_def Let_def new_RecordSet_inv split: sum.splits)

text \<open>
  C8. \<open>addScope\<close> throws before it writes: a type error for a matcher that is not a function
  or a truthy comparator that is not one, a duplication error for a registered name, a name
  error for the name of a member of the class or of its prototypes. One member gets past
  the check: \<open>size\<close> is inherited from \<open>Map.prototype\<close>, so it is not an own property name of
  \<open>RecordSet.prototype\<close>, and on an empty set \<open>this.size\<close> is 0, which is falsy. There the
  scope is registered and an accessor named \<open>size\<close> is defined.
\<close>

theorem addScope_size_on_empty_set:
  "''size'' \<in> set map_prototype_names \<and>
   addScope ''size'' (Function oldest) (NotFunction False) (new_RecordSet [] None)
     = Inr \<lparr>entries = [], scopes = [(''size'', (oldest, None))], accessors = [''size'']\<rparr>"
  by (simp add: map_prototype_names_def addScope_def validateProperty_def arg_truthy_def
      this_property_truthy_def recordset_prototype_names_def stored_comparator_def
      new_RecordSet_def)

section \<open>Derived sets and the live store\<close>

subsection \<open>What a derivation makes\<close>

lemma lookup_written:
  "a < length (sets st) \<Longrightarrow> lookup a (st\<lparr>sets := (sets st)[a := this]\<rparr>) = Some this"
  by (simp add: lookup_def)

lemma write_obj_at:
  "lookup a st = Some this \<Longrightarrow> write_obj method a st = st\<lparr>sets := (sets st)[a := method this]\<rparr>"
  by (simp add: write_obj_def)

lemma filter_obj_loop_value:
  assumes "lookup d st = Some newMap"
  shows "filter_obj_loop f es0 d es st
    = st\<lparr>sets := (sets st)[d := filter_loop f es0 newMap es]\<rparr>"
  using assms
proof (induction es arbitrary: st newMap)
  case Nil
  then show ?case by (auto simp: lookup_def split: if_splits)
next
  case (Cons e es)
  from Cons.prems have d: "d < length (sets st)" by (simp add: lookup_def split: if_splits)
  show ?case
  proof (cases "f (snd e) (fst e) es0")
    case True
    let ?N = "set_priv (fst e) (snd e) newMap"
    let ?st = "st\<lparr>sets := (sets st)[d := ?N]\<rparr>"
    have w: "set_priv_obj (fst e) (snd e) d st = ?st"
      by (simp add: set_priv_obj_def write_obj_at [OF Cons.prems])
    have "lookup d ?st = Some ?N" by (rule lookup_written [OF d])
    from Cons.IH [OF this] True w show ?thesis by simp
  next
    case False
    with Cons.IH [OF Cons.prems] show ?thesis by simp
  qed
qed

lemma append_obj_loop_value:
  assumes "lookup d st = Some res"
  shows "append_obj_loop fid d rs st
    = st\<lparr>sets := (sets st)[d := append_loop (\<lambda>r. fid (objects st r)) res rs]\<rparr>"
  using assms
proof (induction rs arbitrary: st res)
  case Nil
  then show ?case by (auto simp: lookup_def split: if_splits)
next
  case (Cons r rs)
  from Cons.prems have d: "d < length (sets st)" by (simp add: lookup_def split: if_splits)
  let ?N = "set_priv (fid (objects st r)) r res"
  let ?st = "st\<lparr>sets := (sets st)[d := ?N]\<rparr>"
  have w: "set_priv_obj (fid (objects st r)) r d st = ?st"
    by (simp add: set_priv_obj_def write_obj_at [OF Cons.prems])
  have "lookup d ?st = Some ?N" by (rule lookup_written [OF d])
  from Cons.IH [OF this] w show ?case by simp
qed

text \<open>The RecordSet a derivation makes is the one the method gives as a function of the
  contents of \<open>this\<close>, at the next address.\<close>

lemma derive_value:
  assumes "lookup a st = Some this"
  shows
    "derive fid (Filter f) a st
       = (Inr (length (sets st)), st\<lparr>sets := sets st @ [filter_rs f this]\<rparr>)"
    "derive fid (Sort c) a st
       = (Inr (length (sets st)), st\<lparr>sets := sets st @ [sort_rs c this]\<rparr>)"
    "derive fid Duplicate a st
       = (Inr (length (sets st)), st\<lparr>sets := sets st @ [duplicate this]\<rparr>)"
    "derive fid (Append rs) a st
       = (Inr (length (sets st)),
          st\<lparr>sets := sets st @ [append_rs (\<lambda>r. fid (objects st r)) rs this]\<rparr>)"
    "derive fid (Only ids) a st
       = (Inr (length (sets st)), st\<lparr>sets := sets st @ [only ids this]\<rparr>)"
    "derive fid (Except ids) a st
       = (Inr (length (sets st)), st\<lparr>sets := sets st @ [except ids this]\<rparr>)"
    "derive fid (Slice i j) a st
       = (Inr (length (sets st)), st\<lparr>sets := sets st @ [slice i j this]\<rparr>)"
    "derive fid (Limit n) a st
       = (Inr (length (sets st)), st\<lparr>sets := sets st @ [limit n this]\<rparr>)"
    "derive fid (Offset n) a st
       = (Inr (length (sets st)), st\<lparr>sets := sets st @ [offset n this]\<rparr>)"
proof -
  note made = new_RecordSet_obj_made [OF assms]
  let ?n = "length (sets st)"
  have at: "lookup ?n (st\<lparr>sets := sets st @ [N]\<rparr>) = Some N" for N
    by (simp add: lookup_def)
  show "derive fid (Filter f) a st
       = (Inr (length (sets st)), st\<lparr>sets := sets st @ [filter_rs f this]\<rparr>)"
    using assms
    by (simp add: derive_def filter_obj_def made filter_obj_loop_value [OF at] filter_rs_def)
  show "derive fid (Append rs) a st
       = (Inr (length (sets st)),
          st\<lparr>sets := sets st @ [append_rs (\<lambda>r. fid (objects st r)) rs this]\<rparr>)"
    using assms
    by (simp add: derive_def append_obj_def made append_obj_loop_value [OF at] append_rs_def)
qed (use assms new_RecordSet_obj_made [OF assms] in
    \<open>simp_all add: derive_def sort_obj_def duplicate_obj_def only_obj_def except_obj_def
       slice_obj_def limit_obj_def offset_obj_def sort_rs_def duplicate_def only_def
       except_def slice_def limit_def offset_def Let_def\<close>)

lemma derive_merge_value:
  assumes "lookup a st = Some this" and "lookup_all others st = Some recordSets"
    and "merge recordSets this = Inr D"
  shows "derive fid (Merge others) a st = (Inr (length (sets st)), st\<lparr>sets := sets st @ [D]\<rparr>)"
  using assms
  by (auto simp: derive_def merge_obj_def merge_def new_RecordSet_obj_made [OF assms(1)]
      split: sum.splits)

lemma derive_result:
  assumes "derive fid operation s st = (Inr d, st1)"
  shows "d = length (sets st) \<and> s < length (sets st) \<and>
    (\<exists>D. sets st1 = sets st @ [D]) \<and> objects st1 = objects st"
proof -
  from assms obtain this where src: "lookup s st = Some this"
    by (cases "lookup s st"; cases operation)
      (simp_all add: derive_def filter_obj_def sort_obj_def duplicate_obj_def merge_obj_def
        append_obj_def only_obj_def except_obj_def slice_obj_def limit_obj_def offset_obj_def)
  from src have s: "s < length (sets st)" by (simp add: lookup_def split: if_splits)
  have "d = length (sets st) \<and> (\<exists>D. sets st1 = sets st @ [D]) \<and> objects st1 = objects st"
  proof (cases operation)
    case (Merge others)
    with assms src show ?thesis
      by (auto simp: derive_def merge_obj_def new_RecordSet_obj_made [OF src]
          split: option.splits sum.splits)
  qed (use assms derive_value [OF src, of fid] in auto)
  with s show ?thesis by simp
qed

subsection \<open>What a write to the live store reaches\<close>

lemma write_obj_sets:
  "length (sets (write_obj method a st)) = length (sets st) \<and>
   (\<forall>b. b \<noteq> a \<longrightarrow> sets (write_obj method a st) ! b = sets st ! b) \<and>
   objects (write_obj method a st) = objects st"
  by (cases "lookup a st") (simp_all add: write_obj_def)

lemma assign_fields_sets: "sets (snd (assign_fields h r fs st)) = sets st"
  by (induction fs arbitrary: st) (auto split: sum.splits)

lemma assign_fields_objects:
  "r' \<noteq> r \<Longrightarrow> objects (snd (assign_fields h r fs st)) r' = objects st r'"
  by (induction fs arbitrary: st) (auto split: sum.splits)

lemma updateRecord_sets: "sets (snd (updateRecord h k recordData a st)) = sets st"
  by (auto simp: updateRecord_def assign_fields_sets split: option.splits record_data.splits)

lemma updateRecord_objects:
  assumes "\<forall>S. lookup a st = Some S \<longrightarrow> map_get k (entries S) \<noteq> Some r"
  shows "objects (snd (updateRecord h k recordData a st)) r = objects st r"
  using assms
  by (auto simp: updateRecord_def assign_fields_objects split: option.splits record_data.splits)

lemma mutate_sets:
  "length (sets (mutate h m a st)) = length (sets st) \<and>
   (\<forall>b. b \<noteq> a \<longrightarrow> sets (mutate h m a st) ! b = sets st ! b)"
  using write_obj_sets [of _ a st] updateRecord_sets [of h _ _ a st]
  by (cases m)
    (simp_all add: mutate_def set_priv_obj_def delete_priv_obj_def
      clearRecordSetForTesting_obj_def addScope_obj_def)

lemma mutate_objects: "entry_point m \<Longrightarrow> objects (mutate h m a st) = objects st"
  using write_obj_sets [of _ a st]
  by (cases m)
    (simp_all add: mutate_def set_priv_obj_def delete_priv_obj_def
      clearRecordSetForTesting_obj_def addScope_obj_def)

lemma mutate_all_sets:
  "length (sets (mutate_all h ms a st)) = length (sets st) \<and>
   (\<forall>b. b \<noteq> a \<longrightarrow> sets (mutate_all h ms a st) ! b = sets st ! b)"
proof (induction ms arbitrary: st)
  case Nil
  then show ?case by simp
next
  case (Cons m ms)
  from Cons.IH [of "mutate h m a st"] mutate_sets [of h m a st] show ?case by simp
qed

lemma mutate_all_objects:
  "list_all entry_point ms \<Longrightarrow> objects (mutate_all h ms a st) = objects st"
  by (induction ms arbitrary: st) (simp_all add: mutate_objects)

lemma mutate_all_other:
  "b \<noteq> a \<Longrightarrow> lookup b (mutate_all h ms a st) = lookup b st"
  using mutate_all_sets [of h ms a st] by (simp add: lookup_def)

lemma field_values_frame:
  "lookup d st2 = lookup d st1 \<Longrightarrow> objects st2 = objects st1
     \<Longrightarrow> field_values d st2 = field_values d st1"
  by (cases "lookup d st1") (simp_all add: field_values_def)

subsection \<open>An update seen through a derived set\<close>

text \<open>
  The duplicate of a RecordSet holds the record objects of its source, and \<open>updateRecord\<close>
  assigns to the fields of the object it finds under the key. So the title the duplicate
  shows under the key 1 is another one after the update of the record 1 of the source.
\<close>

theorem update_shows_in_duplicate:
  "derive book_id Duplicate 0 shelf = (Inr 1, shelf\<lparr>sets := [books, books]\<rparr>) \<and>
   field_values 1 (shelf\<lparr>sets := [books, books]\<rparr>)
     = Some [(1, [(''id'', Num 1), (''title'', Str ''Emma'')]),
             (2, [(''id'', Num 2), (''title'', Str ''Persuasion'')])] \<and>
   fst (updateRecord plain_assignment 1 (Fields [(''title'', Str ''Sanditon'')]) 0
          (shelf\<lparr>sets := [books, books]\<rparr>)) = Inr 10 \<and>
   field_values 1
       (mutate plain_assignment (UpdateRecord 1 (Fields [(''title'', Str ''Sanditon'')])) 0
          (shelf\<lparr>sets := [books, books]\<rparr>))
     = Some [(1, [(''id'', Num 1), (''title'', Str ''Sanditon'')]),
             (2, [(''id'', Num 2), (''title'', Str ''Persuasion'')])]"
proof -
  have here: "lookup 0 shelf = Some books" by (simp add: lookup_def shelf_def)
  have dup: "duplicate books = books"
    by (simp add: duplicate_def books_def new_RecordSet_def copyScopes_def)
  have run: "derive book_id Duplicate 0 shelf = (Inr 1, shelf\<lparr>sets := [books, books]\<rparr>)"
    using derive_value(3) [OF here, of book_id] by (simp add: dup) (simp add: shelf_def)
  have before: "field_values 1 (shelf\<lparr>sets := [books, books]\<rparr>)
     = Some [(1, [(''id'', Num 1), (''title'', Str ''Emma'')]),
             (2, [(''id'', Num 2), (''title'', Str ''Persuasion'')])]"
    by (simp add: field_values_def lookup_def shelf_def books_def book_contents_def)
  have returned: "fst (updateRecord plain_assignment 1 (Fields [(''title'', Str ''Sanditon'')]) 0
          (shelf\<lparr>sets := [books, books]\<rparr>)) = Inr 10"
    by (simp add: updateRecord_def lookup_def shelf_def books_def plain_assignment_def)
  have after: "field_values 1
       (mutate plain_assignment (UpdateRecord 1 (Fields [(''title'', Str ''Sanditon'')])) 0
          (shelf\<lparr>sets := [books, books]\<rparr>))
     = Some [(1, [(''id'', Num 1), (''title'', Str ''Sanditon'')]),
             (2, [(''id'', Num 2), (''title'', Str ''Persuasion'')])]"
    by (simp add: field_values_def mutate_def updateRecord_def lookup_def shelf_def books_def
        book_contents_def plain_assignment_def)
  show ?thesis by (intro conjI) (rule run before returned after)+
qed

text \<open>
  C4. The RecordSet a derivation returns is a new object: its address held nothing before,
  it is not the source, and the source, every other RecordSet and every record object are
  as they were. Whatever is then done to the source, by the entry points of the class
  (\<open>[$set]\<close> of a new or a present key, \<open>[$delete]\<close>, \<open>[$clearRecordSetForTesting]\<close>,
  \<open>[$addScope]\<close>) or by \<open>updateRecord\<close>, the derived set keeps its keys, the record objects
  under them, its scope table and its accessors. The entry points write to no record
  object, so after any number of them the field values seen through the derived set are
  the same. \<open>updateRecord\<close> writes to one record object, the one the source holds under the
  given key at that time, and to no other; that object may be one the derived set holds.
\<close>

theorem derived_set_keeps_references:
  assumes "derive fid operation s st = (Inr d, st1)"
  shows "lookup d st = None \<and> d \<noteq> s \<and>
    (\<forall>a. a \<noteq> d \<longrightarrow> lookup a st1 = lookup a st) \<and> objects st1 = objects st \<and>
    (\<exists>D. lookup d st1 = Some D) \<and>
    (\<forall>handler ms. lookup d (mutate_all handler ms s st1) = lookup d st1) \<and>
    (\<forall>handler ms. list_all entry_point ms \<longrightarrow>
        objects (mutate_all handler ms s st1) = objects st1 \<and>
        field_values d (mutate_all handler ms s st1) = field_values d st1) \<and>
    (\<forall>handler ms k recordData r.
        (\<forall>S2. lookup s (mutate_all handler ms s st1) = Some S2 \<longrightarrow>
                map_get k (entries S2) \<noteq> Some r) \<longrightarrow>
        objects (mutate handler (UpdateRecord k recordData) s (mutate_all handler ms s st1)) r
          = objects (mutate_all handler ms s st1) r)"
proof -
  from derive_result [OF assms] obtain D where
    d: "d = length (sets st)" and s: "s < length (sets st)"
    and st1: "sets st1 = sets st @ [D]" and obj: "objects st1 = objects st"
    by blast
  have fresh: "lookup d st = None" by (simp add: lookup_def d)
  have ne: "d \<noteq> s" using d s by simp
  have old: "\<forall>a. a \<noteq> d \<longrightarrow> lookup a st1 = lookup a st"
    by (auto simp: lookup_def st1 d nth_append)
  have made: "\<exists>D. lookup d st1 = Some D" by (simp add: lookup_def st1 d)
  have frame: "\<forall>handler ms. lookup d (mutate_all handler ms s st1) = lookup d st1"
    using mutate_all_other [OF ne] by blast
  have quiet: "\<forall>handler ms. list_all entry_point ms \<longrightarrow>
        objects (mutate_all handler ms s st1) = objects st1 \<and>
        field_values d (mutate_all handler ms s st1) = field_values d st1"
    by (intro allI impI conjI field_values_frame mutate_all_other [OF ne] mutate_all_objects)
  have one: "\<forall>handler ms k recordData r.
        (\<forall>S2. lookup s (mutate_all handler ms s st1) = Some S2 \<longrightarrow>
                map_get k (entries S2) \<noteq> Some r) \<longrightarrow>
        objects (mutate handler (UpdateRecord k recordData) s (mutate_all handler ms s st1)) r
          = objects (mutate_all handler ms s st1) r"
    unfolding mutate_def mutation.case by (intro allI impI updateRecord_objects) blast
  show ?thesis by (intro conjI) (rule fresh ne old obj made frame quiet one)+
qed

theorem derived_set_keeps_references_witness:
  "derive book_id Duplicate 0 shelf = (Inr 1, shelf\<lparr>sets := [books, books]\<rparr>) \<and>
   lookup 1 shelf = None \<and>
   lookup 0 (shelf\<lparr>sets := [books, books]\<rparr>) = lookup 0 shelf \<and>
   lookup 1 (mutate_all plain_assignment
               [SetPriv 1 12, DeletePriv 2, SetPriv 9 13,
                UpdateRecord 1 (Fields [(''title'', Str ''Sanditon'')]),
                ClearRecordSetForTesting] 0 (shelf\<lparr>sets := [books, books]\<rparr>))
     = Some books \<and>
   lookup 0 (mutate_all plain_assignment [SetPriv 1 12, DeletePriv 2, SetPriv 9 13] 0
               (shelf\<lparr>sets := [books, books]\<rparr>))
     = Some (books\<lparr>entries := [(1, 12), (9, 13)]\<rparr>) \<and>
   field_values 1 (mutate_all plain_assignment [SetPriv 1 12, DeletePriv 2, SetPriv 9 13] 0
                     (shelf\<lparr>sets := [books, books]\<rparr>))
     = Some [(1, [(''id'', Num 1), (''title'', Str ''Emma'')]),
             (2, [(''id'', Num 2), (''title'', Str ''Persuasion'')])]"
proof -
  have here: "lookup 0 shelf = Some books" by (simp add: lookup_def shelf_def)
  have dup: "duplicate books = books"
    by (simp add: duplicate_def books_def new_RecordSet_def copyScopes_def)
  have run: "derive book_id Duplicate 0 shelf = (Inr 1, shelf\<lparr>sets := [books, books]\<rparr>)"
    using derive_value(3) [OF here, of book_id] by (simp add: dup) (simp add: shelf_def)
  note inst = derived_set_keeps_references [OF run]
  note fresh = inst [THEN conjunct1]
  have zero: "(0::nat) \<noteq> 1" by simp
  note old = inst [THEN conjunct2, THEN conjunct2, THEN conjunct1, rule_format, OF zero]
  have kept: "lookup 1 (shelf\<lparr>sets := [books, books]\<rparr>) = Some books"
    by (simp add: lookup_def shelf_def)
  have seen: "field_values 1 (shelf\<lparr>sets := [books, books]\<rparr>)
     = Some [(1, [(''id'', Num 1), (''title'', Str ''Emma'')]),
             (2, [(''id'', Num 2), (''title'', Str ''Persuasion'')])]"
    by (simp add: field_values_def lookup_def shelf_def books_def book_contents_def)
  note frame = inst [THEN conjunct2, THEN conjunct2, THEN conjunct2, THEN conjunct2,
      THEN conjunct2, THEN conjunct1, rule_format, of plain_assignment
      "[SetPriv 1 12, DeletePriv 2, SetPriv 9 13,
        UpdateRecord 1 (Fields [(''title'', Str ''Sanditon'')]), ClearRecordSetForTesting]"]
  have after: "lookup 1 (mutate_all plain_assignment
               [SetPriv 1 12, DeletePriv 2, SetPriv 9 13,
                UpdateRecord 1 (Fields [(''title'', Str ''Sanditon'')]),
                ClearRecordSetForTesting] 0 (shelf\<lparr>sets := [books, books]\<rparr>))
     = Some books"
    using frame kept by (simp only:)
  have live: "lookup 0 (mutate_all plain_assignment [SetPriv 1 12, DeletePriv 2, SetPriv 9 13] 0
               (shelf\<lparr>sets := [books, books]\<rparr>))
     = Some (books\<lparr>entries := [(1, 12), (9, 13)]\<rparr>)"
    by (simp add: mutate_def set_priv_obj_def delete_priv_obj_def write_obj_def lookup_def
        shelf_def books_def set_priv_def delete_priv_def)
  have eps: "list_all entry_point
      ([SetPriv 1 12, DeletePriv 2, SetPriv 9 13] :: (nat, nat) mutation list)"
    by simp
  note quiet = inst [THEN conjunct2, THEN conjunct2, THEN conjunct2, THEN conjunct2,
      THEN conjunct2, THEN conjunct2, THEN conjunct1, rule_format, of _ plain_assignment,
      OF eps, THEN conjunct2]
  have same: "field_values 1 (mutate_all plain_assignment [SetPriv 1 12, DeletePriv 2, SetPriv 9 13] 0
                     (shelf\<lparr>sets := [books, books]\<rparr>))
     = Some [(1, [(''id'', Num 1), (''title'', Str ''Emma'')]),
             (2, [(''id'', Num 2), (''title'', Str ''Persuasion'')])]"
    using quiet seen by (simp only:)
  show ?thesis by (intro conjI) (rule run fresh old after live same)+
qed

section \<open>The public mutators\<close>

text \<open>
  C2. \<open>set\<close>, \<open>delete\<close> and \<open>clear\<close> of a RecordSet throw a TypeError whatever their
  arguments, and the set, with the store it lives in, is afterwards what it was.
\<close>

theorem public_mutators_throw:
  assumes "lookup a st = Some S"
  shows "set_public k v S = (Inl TypeError, S) \<and>
    delete_public k' S = (Inl TypeError, S) \<and>
    clear_public S = (Inl TypeError, S) \<and>
    call_public (set_public k v) a st = (Inl TypeError, st) \<and>
    call_public (delete_public k') a st = (Inl TypeError, st) \<and>
    call_public clear_public a st = (Inl TypeError, st)"
proof -
  have same: "st\<lparr>sets := (sets st)[a := S]\<rparr> = st"
    using assms by (auto simp: lookup_def split: if_splits)
  show ?thesis
    using assms same
    by (simp add: set_public_def delete_public_def clear_public_def call_public_def)
qed

theorem public_mutators_throw_witness:
  "lookup 0 town = Some people \<and>
   call_public (set_public 7 (7, ''x'')) 0 town = (Inl TypeError, town) \<and>
   call_public (delete_public 1) 0 town = (Inl TypeError, town) \<and>
   call_public clear_public 0 town = (Inl TypeError, town) \<and>
   entries people = [(1, (30, ''a'')), (2, (20, ''b'')), (3, (40, ''c'')), (4, (20, ''d''))]"
proof -
  have here: "lookup 0 town = Some people" by (simp add: lookup_def town_def)
  have ents: "entries people
      = [(1, (30, ''a'')), (2, (20, ''b'')), (3, (40, ''c'')), (4, (20, ''d''))]"
    by (simp add: people_def)
  note thrown = public_mutators_throw [OF here, of 7 "(7, ''x'')" 1]
  show ?thesis
    by (intro conjI)
      (rule here ents thrown [THEN conjunct2, THEN conjunct2, THEN conjunct2, THEN conjunct1]
        thrown [THEN conjunct2, THEN conjunct2, THEN conjunct2, THEN conjunct2, THEN conjunct1]
        thrown [THEN conjunct2, THEN conjunct2, THEN conjunct2, THEN conjunct2, THEN conjunct2])+
qed

end
